theory Spec2Isabelle
  imports Main "HOL-Library.Word"
begin

unbundle bit_operations_syntax

section \<open>The allocator of \<^verbatim>\<open>mm.c\<close> over an explicit store\<close>

text \<open>
  The target is an LP64 machine, as the source assumes (8-byte headers, the literal
  \<^verbatim>\<open>0x9\<close> for the terminator, \<^verbatim>\<open>PAGE_PAD 8\<close>): \<^verbatim>\<open>size_t\<close> and
  pointers are 64-bit words, \<^verbatim>\<open>int\<close> is a 32-bit word. Unsigned arithmetic wraps.
  A \<^verbatim>\<open>size_t\<close> stored into an \<^verbatim>\<open>int\<close> keeps its low 32 bits and an
  \<^verbatim>\<open>int\<close> used as a \<^verbatim>\<open>size_t\<close> is sign-extended (the conversion every
  mainstream LP64 compiler implements). Signed overflow, which C leaves undefined, wraps in
  the model.

  Memory is a total store from byte addresses to 64-bit words; every access of the
  source is a \<^verbatim>\<open>size_t\<close> or pointer access. The store does not record which
  addresses are mapped: an access that would fault on the machine is carried out on the
  store. The runs evaluated in this theory make every access inside a chunk that the pager
  has granted and not taken back, where the store and the machine agree. The calls to the
  pager are recorded in the state.
\<close>

type_synonym addr = "64 word"
type_synonym size_t = "64 word"
type_synonym cint = "32 word"
type_synonym memory = "addr \<Rightarrow> 64 word"

record mm_state =
  mem :: memory
  free_list :: addr
  num_page_chunks :: cint
  map_multiplier :: cint
  pagesize :: cint
  recent_page :: addr
  map_calls :: "size_t list"
  unmap_calls :: "(addr \<times> size_t) list"

text \<open>\<open>map_calls\<close> and \<open>unmap_calls\<close> hold the arguments of every \<^verbatim>\<open>mem_map\<close>
  and \<^verbatim>\<open>mem_unmap\<close> call, the most recent first.\<close>

subsection \<open>Macros\<close>

definition ALIGNMENT :: size_t where
  "ALIGNMENT = 16"

definition ALIGN :: "size_t \<Rightarrow> size_t" where
  "ALIGN sz = (sz + (ALIGNMENT - 1)) AND NOT (ALIGNMENT - 1)"

text \<open>\<^verbatim>\<open>pagesize\<close> is an \<^verbatim>\<open>int\<close>: both \<^verbatim>\<open>pagesize-1\<close> and its complement are
  computed in \<^verbatim>\<open>int\<close> and then converted to \<^verbatim>\<open>size_t\<close>.\<close>

definition PAGE_ALIGN :: "cint \<Rightarrow> size_t \<Rightarrow> size_t" where
  "PAGE_ALIGN ps sz = (sz + scast (ps - 1)) AND scast (NOT (ps - 1))"

definition OVERHEAD :: size_t where
  "OVERHEAD = 8 + 8"

definition MIN_BLOCK_SIZE :: size_t where
  "MIN_BLOCK_SIZE = OVERHEAD + ALIGNMENT"

definition PAGE_PAD :: size_t where
  "PAGE_PAD = 8"

definition PAGE_OVERHEAD :: size_t where
  "PAGE_OVERHEAD = PAGE_PAD + OVERHEAD + 8"

definition MAX_PAGE_PER_MAP :: cint where
  "MAX_PAGE_PER_MAP = 32"

definition GET :: "memory \<Rightarrow> addr \<Rightarrow> size_t" where
  "GET m p = m p"

definition PUT :: "memory \<Rightarrow> addr \<Rightarrow> size_t \<Rightarrow> memory" where
  "PUT m p val = m(p := val)"

definition PACK :: "size_t \<Rightarrow> size_t \<Rightarrow> size_t" where
  "PACK sz alloc = sz OR alloc"

definition GET_ALLOC :: "memory \<Rightarrow> addr \<Rightarrow> size_t" where
  "GET_ALLOC m p = GET m p AND 1"

definition GET_SIZE :: "memory \<Rightarrow> addr \<Rightarrow> size_t" where
  "GET_SIZE m p = GET m p AND NOT 15"

definition HDRP :: "addr \<Rightarrow> addr" where
  "HDRP bp = bp - 8"

definition FTRP :: "memory \<Rightarrow> addr \<Rightarrow> addr" where
  "FTRP m bp = bp + GET_SIZE m (HDRP bp) - OVERHEAD"

definition NEXT_BLKP :: "memory \<Rightarrow> addr \<Rightarrow> addr" where
  "NEXT_BLKP m bp = bp + GET_SIZE m (HDRP bp)"

definition PREV_BLKP :: "memory \<Rightarrow> addr \<Rightarrow> addr" where
  "PREV_BLKP m bp = bp - GET_SIZE m (bp - OVERHEAD)"

text \<open>The fields of \<^verbatim>\<open>struct node\<close>: \<^verbatim>\<open>next\<close> at offset 0, \<^verbatim>\<open>prev\<close> at
  offset 8.\<close>

definition node_next :: "memory \<Rightarrow> addr \<Rightarrow> addr" where
  "node_next m n = m n"

definition node_prev :: "memory \<Rightarrow> addr \<Rightarrow> addr" where
  "node_prev m n = m (n + 8)"

definition set_next :: "memory \<Rightarrow> addr \<Rightarrow> addr \<Rightarrow> memory" where
  "set_next m n v = m(n := v)"

definition set_prev :: "memory \<Rightarrow> addr \<Rightarrow> addr \<Rightarrow> memory" where
  "set_prev m n v = m(n + 8 := v)"

subsection \<open>Initialisation and the free list\<close>

text \<open>\<open>ps\<close> is the value of \<^verbatim>\<open>mem_pagesize()\<close> as stored into the \<^verbatim>\<open>int\<close>
  \<^verbatim>\<open>pagesize\<close>.\<close>

definition mm_init :: "cint \<Rightarrow> mm_state \<Rightarrow> mm_state" where
  "mm_init ps st =
     st\<lparr>map_multiplier := 1, free_list := 0, num_page_chunks := 0, pagesize := ps\<rparr>"

definition add_free :: "addr \<Rightarrow> mm_state \<Rightarrow> mm_state" where
  "add_free ptr st =
     (let m1 = set_next (set_prev (mem st) ptr 0) ptr 0 in
      if free_list st = 0 then st\<lparr>mem := m1, free_list := ptr\<rparr>
      else
        let m2 = set_next m1 ptr (free_list st);
            m3 = set_prev m2 (free_list st) ptr
        in st\<lparr>mem := m3, free_list := ptr\<rparr>)"

definition del_free :: "addr \<Rightarrow> mm_state \<Rightarrow> mm_state" where
  "del_free ptr st =
     (let m0 = mem st;
          m1 = (if node_prev m0 ptr \<noteq> 0
                then set_next m0 (node_prev m0 ptr) (node_next m0 ptr) else m0);
          m2 = (if node_next m1 ptr \<noteq> 0
                then set_prev m1 (node_next m1 ptr) (node_prev m1 ptr) else m1)
      in if ptr = free_list st
         then st\<lparr>mem := m2, free_list := node_next m2 (free_list st)\<rparr>
         else st\<lparr>mem := m2\<rparr>)"

subsection \<open>Allocation\<close>

definition allocate :: "addr \<Rightarrow> size_t \<Rightarrow> mm_state \<Rightarrow> mm_state" where
  "allocate bp sz st =
     (let cursize = GET_SIZE (mem st) (HDRP bp);
          remainder = cursize - sz;
          st1 = (if MIN_BLOCK_SIZE \<le> remainder then
                   let m1 = PUT (mem st) (HDRP bp) sz;
                       m2 = PUT m1 (FTRP m1 bp) sz;
                       next = NEXT_BLKP m2 bp;
                       m3 = PUT m2 (HDRP next) (PACK remainder 0);
                       m4 = PUT m3 (FTRP m3 next) (PACK remainder 0)
                   in add_free next (st\<lparr>mem := m4\<rparr>)
                 else st);
          cursize' = GET_SIZE (mem st1) (HDRP bp);
          m5 = PUT (mem st1) (HDRP bp) (PACK cursize' 1);
          m6 = PUT m5 (FTRP m5 bp) (PACK cursize' 1)
      in del_free bp (st1\<lparr>mem := m6\<rparr>))"

text \<open>The first-fit loop follows \<^verbatim>\<open>next\<close> links until a block fits or the link is
  null; on a cyclic list without a fitting block it does not return, which is the value
  \<open>None\<close>.\<close>

partial_function (option) find_from :: "size_t \<Rightarrow> addr \<Rightarrow> mm_state \<Rightarrow> (addr \<times> mm_state) option" where
  "find_from reqsize n st =
     (if n = 0 then Some (0, st)
      else if reqsize \<le> GET_SIZE (mem st) (HDRP n) then Some (n, allocate n reqsize st)
      else find_from reqsize (node_next (mem st) n) st)"

definition find_free_block :: "size_t \<Rightarrow> mm_state \<Rightarrow> (addr \<times> mm_state) option" where
  "find_free_block reqsize st = find_from reqsize (free_list st) st"

text \<open>\<open>pager\<close> is the answer of \<^verbatim>\<open>mem_map\<close> to the request made by this call, 0 for
  null. \<^verbatim>\<open>reqsize\<close>, \<^verbatim>\<open>newsize\<close> and \<^verbatim>\<open>block_size\<close> are \<^verbatim>\<open>int\<close>s.\<close>

definition extend :: "(size_t \<Rightarrow> addr) \<Rightarrow> size_t \<Rightarrow> mm_state \<Rightarrow> addr \<times> mm_state" where
  "extend pager sz st =
     (let reqsize = (ucast (PAGE_ALIGN (pagesize st) (sz + PAGE_OVERHEAD)) :: cint);
          newsize0 = map_multiplier st * pagesize st;
          newsize = (if newsize0 <s reqsize then reqsize else newsize0);
          st1 = (if map_multiplier st <s MAX_PAGE_PER_MAP
                 then st\<lparr>map_multiplier := map_multiplier st * 2\<rparr> else st);
          newmap = pager (scast newsize);
          st2 = st1\<lparr>map_calls := scast newsize # map_calls st1\<rparr>
      in if newmap = 0 then (0, st2)
         else
           let st3 = st2\<lparr>recent_page := newmap, num_page_chunks := num_page_chunks st2 + 1\<rparr>;
               sentinel = newmap + PAGE_PAD;
               terminator = newmap + scast newsize - 8;
               bp = sentinel + OVERHEAD + 8;
               m1 = PUT (mem st3) sentinel (PACK OVERHEAD 1);
               m2 = PUT m1 (sentinel + 8) (PACK OVERHEAD 1);
               m3 = PUT m2 terminator (PACK 8 1);
               block_size = (ucast ((scast newsize :: size_t) - PAGE_OVERHEAD) :: cint);
               m4 = PUT m3 (HDRP bp) (scast (block_size OR 0));
               m5 = PUT m4 (FTRP m4 bp) (scast (block_size OR 0))
           in (bp, add_free bp (st3\<lparr>mem := m5\<rparr>)))"

definition mm_malloc :: "(size_t \<Rightarrow> addr) \<Rightarrow> size_t \<Rightarrow> mm_state \<Rightarrow> (addr \<times> mm_state) option" where
  "mm_malloc pager sz st =
     (let newsize = (ucast (ALIGN (sz + OVERHEAD)) :: cint) in
      case find_free_block (scast newsize) st of
        None \<Rightarrow> None
      | Some (p, st1) \<Rightarrow>
          if p = 0 then
            (case extend pager (scast newsize) st1 of
               (p2, st2) \<Rightarrow> if p2 = 0 then Some (0, st2)
                            else find_free_block (scast newsize) st2)
          else Some (p, st1))"

subsection \<open>Freeing\<close>

definition coalesce :: "addr \<Rightarrow> mm_state \<Rightarrow> addr \<times> mm_state" where
  "coalesce ptr st =
     (let m = mem st;
          lbp = PREV_BLKP m ptr;
          rbp = NEXT_BLKP m ptr;
          lfree = (GET_ALLOC m (HDRP lbp) = 0);
          rfree = (GET_ALLOC m (HDRP rbp) = 0);
          cursize = GET_SIZE m (HDRP ptr);
          lsize = GET_SIZE m (HDRP lbp);
          rsize = GET_SIZE m (HDRP rbp)
      in if \<not> lfree \<and> \<not> rfree then (ptr, add_free ptr st)
         else if lfree \<and> \<not> rfree then
           let m1 = PUT m (HDRP lbp) (PACK (lsize + cursize) 0);
               m2 = PUT m1 (FTRP m1 lbp) (PACK (lsize + cursize) 0)
           in (lbp, st\<lparr>mem := m2\<rparr>)
         else if \<not> lfree \<and> rfree then
           let m1 = PUT m (HDRP ptr) (PACK (cursize + rsize) 0);
               m2 = PUT m1 (FTRP m1 ptr) (PACK (cursize + rsize) 0)
           in (ptr, add_free ptr (del_free rbp (st\<lparr>mem := m2\<rparr>)))
         else if lfree \<and> rfree then
           let m1 = PUT m (HDRP lbp) (PACK (lsize + cursize + rsize) 0);
               m2 = PUT m1 (FTRP m1 lbp) (PACK (lsize + cursize + rsize) 0)
           in (lbp, del_free rbp (st\<lparr>mem := m2\<rparr>))
         else (0, st))"

definition try_unmap :: "addr \<Rightarrow> mm_state \<Rightarrow> mm_state" where
  "try_unmap bp st =
     (let prev = PREV_BLKP (mem st) bp;
          next = NEXT_BLKP (mem st) bp
      in if GET_SIZE (mem st) (HDRP prev) = OVERHEAD \<and> GET (mem st) (HDRP next) = 9 then
           let chunk_size = GET_SIZE (mem st) (HDRP bp) + PAGE_OVERHEAD;
               base = prev - (8 + PAGE_PAD);
               st1 = del_free bp st
           in st1\<lparr>unmap_calls := (base, chunk_size) # unmap_calls st1,
                  num_page_chunks := num_page_chunks st1 - 1\<rparr>
         else st)"

definition mm_free :: "addr \<Rightarrow> mm_state \<Rightarrow> mm_state" where
  "mm_free ptr st =
     (let cursize = GET_SIZE (mem st) (HDRP ptr);
          m1 = PUT (mem st) (HDRP ptr) (PACK cursize 0);
          m2 = PUT m1 (FTRP m1 ptr) (PACK cursize 0);
          (leftmost, st1) = coalesce ptr (st\<lparr>mem := m2\<rparr>)
      in if 1 <s num_page_chunks st1 then try_unmap leftmost st1 else st1)"

declare find_from.simps [code]

subsection \<open>Runs of client calls\<close>

text \<open>A client call is \<^verbatim>\<open>mm_malloc(n)\<close>, together with the answer the pager gives
  if that call reaches \<^verbatim>\<open>mem_map\<close>, or \<^verbatim>\<open>mm_free(p)\<close>. \<open>run\<close> threads the
  state through a list of calls and is \<open>None\<close> when a call does not return.\<close>

datatype call = Malloc "size_t \<Rightarrow> addr" size_t | Free addr

fun run :: "call list \<Rightarrow> mm_state \<Rightarrow> mm_state option" where
  "run [] st = Some st"
| "run (Malloc pager n # cs) st =
     (case mm_malloc pager n st of None \<Rightarrow> None | Some (p, st') \<Rightarrow> run cs st')"
| "run (Free p # cs) st = run cs (mm_free p st)"

text \<open>The state in which \<^verbatim>\<open>mm_free\<close> enters \<^verbatim>\<open>coalesce\<close>: the first three
  statements of \<^verbatim>\<open>mm_free\<close> have cleared the allocated bit in both tags.\<close>

definition unmark :: "addr \<Rightarrow> mm_state \<Rightarrow> mm_state" where
  "unmark ptr st =
     (let cursize = GET_SIZE (mem st) (HDRP ptr);
          m1 = PUT (mem st) (HDRP ptr) (PACK cursize 0);
          m2 = PUT m1 (FTRP m1 ptr) (PACK cursize 0)
      in st\<lparr>mem := m2\<rparr>)"

text \<open>The values the multiplier takes: 1 doubled up to \<^verbatim>\<open>MAX_PAGE_PER_MAP\<close>.\<close>

definition steps :: "cint set" where
  "steps = {1, 2, 4, 8, 16, 32}"

subsection \<open>Environments for concrete runs\<close>

text \<open>\<open>boot\<close> holds the globals as the C file initialises them, over a zeroed store.
  A pager is given by its answer to a request: \<open>grant base\<close> maps every request at
  \<open>base\<close>, \<open>refuse\<close> maps nothing, \<open>limited base\<close> refuses requests above 1 GiB.\<close>

definition boot :: mm_state where
  "boot = \<lparr>mem = (\<lambda>_. 0), free_list = 0, num_page_chunks = 0, map_multiplier = 1,
     pagesize = 0, recent_page = 0, map_calls = [], unmap_calls = []\<rparr>"

definition grant :: "addr \<Rightarrow> size_t \<Rightarrow> addr" where
  "grant base n = base"

definition refuse :: "size_t \<Rightarrow> addr" where
  "refuse n = 0"

definition limited :: "addr \<Rightarrow> size_t \<Rightarrow> addr" where
  "limited base n = (if n \<le> 0x40000000 then base else 0)"

subsection \<open>The free list and the blocks around a freed block\<close>

text \<open>\<open>dlseg m pv p xs q\<close>: in the store \<open>m\<close>, following \<^verbatim>\<open>next\<close> links from \<open>p\<close>
  visits exactly the nodes \<open>xs\<close> and arrives at \<open>q\<close>, every node is non-null and the
  \<^verbatim>\<open>prev\<close> link of each node is its predecessor (\<open>pv\<close> for the first). \<open>dll\<close> is a
  whole list: the head has a null \<^verbatim>\<open>prev\<close> link and the last node a null \<^verbatim>\<open>next\<close>
  link.\<close>

fun dlseg :: "memory \<Rightarrow> addr \<Rightarrow> addr \<Rightarrow> addr list \<Rightarrow> addr \<Rightarrow> bool" where
  "dlseg m pv p [] q \<longleftrightarrow> p = q"
| "dlseg m pv p (x # xs) q \<longleftrightarrow>
     p = x \<and> x \<noteq> 0 \<and> node_prev m x = pv \<and> dlseg m x (node_next m x) xs q"

definition dll :: "memory \<Rightarrow> addr \<Rightarrow> addr list \<Rightarrow> bool" where
  "dll m p xs \<longleftrightarrow> dlseg m 0 p xs 0"

text \<open>Payload pointers are 16-byte aligned; nodes whose \<^verbatim>\<open>prev\<close> field is no other
  node's \<^verbatim>\<open>next\<close> field are \<open>apart\<close>.\<close>

definition aligned16 :: "addr \<Rightarrow> bool" where
  "aligned16 a \<longleftrightarrow> a AND 15 = 0"

definition apart :: "addr list \<Rightarrow> bool" where
  "apart xs \<longleftrightarrow> (\<forall>x\<in>set xs. \<forall>y\<in>set xs. x + 8 \<noteq> y)"

text \<open>
  The state in which \<^verbatim>\<open>coalesce(ptr)\<close> is entered when the heap is well formed around
  \<open>ptr\<close>: the free list is a doubly linked list of distinct aligned nodes \<open>xs\<close> that does
  not hold \<open>ptr\<close>; the tags of \<open>ptr\<close> agree, are cleared and give at least
  \<^verbatim>\<open>MIN_BLOCK_SIZE\<close>; the footer and the header of the left neighbour give the same
  size; a free neighbour is on the list, has at least \<^verbatim>\<open>MIN_BLOCK_SIZE\<close> bytes and its
  own outer neighbour is allocated (no two adjacent free blocks); no list node lies 16
  bytes below one of the blocks involved (free blocks hold a whole node and overlap no
  other block); the blocks involved do not wrap around the address space.
\<close>

definition coalesce_pre :: "addr \<Rightarrow> mm_state \<Rightarrow> addr list \<Rightarrow> bool" where
  "coalesce_pre ptr st xs \<longleftrightarrow>
     (let m = mem st;
          lbp = PREV_BLKP m ptr; rbp = NEXT_BLKP m ptr;
          llbp = PREV_BLKP m lbp; rrbp = NEXT_BLKP m rbp;
          lfree = (GET_ALLOC m (HDRP lbp) = 0); rfree = (GET_ALLOC m (HDRP rbp) = 0);
          cursize = GET_SIZE m (HDRP ptr); lsize = GET_SIZE m (HDRP lbp);
          rsize = GET_SIZE m (HDRP rbp); llsize = GET_SIZE m (HDRP llbp)
      in dll m (free_list st) xs \<and> distinct xs \<and> (\<forall>x\<in>set xs. aligned16 x)
         \<and> ptr \<noteq> 0 \<and> aligned16 ptr \<and> ptr \<notin> set xs
         \<and> GET m (HDRP ptr) = cursize \<and> GET m (FTRP m ptr) = cursize \<and> MIN_BLOCK_SIZE \<le> cursize
         \<and> GET_SIZE m (ptr - OVERHEAD) = lsize \<and> OVERHEAD \<le> lsize
         \<and> (lfree \<longrightarrow> lbp \<in> set xs \<and> MIN_BLOCK_SIZE \<le> lsize
                \<and> GET_SIZE m (lbp - OVERHEAD) = llsize \<and> OVERHEAD \<le> llsize
                \<and> GET_ALLOC m (HDRP llbp) \<noteq> 0)
         \<and> (rfree \<longrightarrow> rbp \<in> set xs \<and> MIN_BLOCK_SIZE \<le> rsize \<and> GET_ALLOC m (HDRP rrbp) \<noteq> 0)
         \<and> (\<forall>x\<in>set xs. x + 16 \<noteq> ptr \<and> x + 16 \<noteq> lbp \<and> x + 16 \<noteq> rbp
                \<and> (lfree \<longrightarrow> x + 16 \<noteq> llbp) \<and> (rfree \<longrightarrow> x + 16 \<noteq> rrbp))
         \<and> 16 + unat (if lfree then llsize else 0) + unat lsize \<le> unat ptr
         \<and> unat ptr + unat cursize + unat (if rfree then rsize else 0) < 2 ^ 64)"

text \<open>
  What the claim promises of the block \<^verbatim>\<open>coalesce\<close> returns: its tags are free and
  agree, the free list is a doubly linked list that holds it exactly once (the old nodes
  without a merged right neighbour, and \<open>ptr\<close> in front unless it merged into the left
  neighbour), and the blocks before and after it are allocated.
\<close>

definition coalesce_post :: "addr \<Rightarrow> mm_state \<Rightarrow> addr list \<Rightarrow> bool" where
  "coalesce_post ptr st xs \<longleftrightarrow>
     (let m = mem st;
          lbp = PREV_BLKP m ptr; rbp = NEXT_BLKP m ptr;
          lfree = (GET_ALLOC m (HDRP lbp) = 0); rfree = (GET_ALLOC m (HDRP rbp) = 0);
          res = fst (coalesce ptr st); st' = snd (coalesce ptr st); m' = mem st';
          ys = (if rfree then remove1 rbp xs else xs);
          xs' = (if lfree then ys else ptr # ys)
      in GET_ALLOC m' (HDRP res) = 0 \<and> GET m' (FTRP m' res) = GET m' (HDRP res)
         \<and> dll m' (free_list st') xs' \<and> count_list xs' res = 1
         \<and> GET_ALLOC m' (HDRP (PREV_BLKP m' res)) \<noteq> 0
         \<and> GET_ALLOC m' (HDRP (NEXT_BLKP m' res)) \<noteq> 0)"


section \<open>Basic facts\<close>

lemmas macro_defs = ALIGNMENT_def ALIGN_def PAGE_ALIGN_def OVERHEAD_def MIN_BLOCK_SIZE_def
  PAGE_PAD_def PAGE_OVERHEAD_def MAX_PAGE_PER_MAP_def GET_def PUT_def PACK_def GET_ALLOC_def
  GET_SIZE_def HDRP_def FTRP_def NEXT_BLKP_def PREV_BLKP_def node_next_def node_prev_def
  set_next_def set_prev_def

lemmas op_defs = mm_malloc_def find_free_block_def extend_def allocate_def add_free_def
  del_free_def mm_free_def coalesce_def try_unmap_def mm_init_def unmark_def

lemmas fixture_defs = boot_def grant_def refuse_def limited_def

text \<open>Rules that evaluate the operations on a concrete state; used with the weak
  congruence rule for \<open>Let\<close>, so that a bound value is computed before the body.\<close>

lemmas eval_simps = op_defs macro_defs fixture_defs find_from.simps Let_def
  word_sless_alt word_sle_eq

lemma mm_free_unmark:
  "mm_free ptr st =
     (let st1 = snd (coalesce ptr (unmark ptr st)) in
      if 1 <s num_page_chunks st1 then try_unmap (fst (coalesce ptr (unmark ptr st))) st1
      else st1)"
  by (simp add: mm_free_def unmark_def Let_def split_beta)

lemma coalesce_fst:
  "fst (coalesce ptr st) =
     (if GET_ALLOC (mem st) (HDRP (PREV_BLKP (mem st) ptr)) = 0
      then PREV_BLKP (mem st) ptr else ptr)"
  by (simp add: coalesce_def Let_def)

lemma unmark_globals:
  "num_page_chunks (unmark ptr st) = num_page_chunks st"
  "map_multiplier (unmark ptr st) = map_multiplier st"
  "unmap_calls (unmark ptr st) = unmap_calls st"
  "map_calls (unmark ptr st) = map_calls st"
  "free_list (unmark ptr st) = free_list st"
  "pagesize (unmark ptr st) = pagesize st"
  by (simp_all add: unmark_def Let_def)

lemma del_free_globals:
  "num_page_chunks (del_free ptr st) = num_page_chunks st"
  "map_multiplier (del_free ptr st) = map_multiplier st"
  "unmap_calls (del_free ptr st) = unmap_calls st"
  "map_calls (del_free ptr st) = map_calls st"
  "pagesize (del_free ptr st) = pagesize st"
  by (simp_all add: del_free_def Let_def)

lemma add_free_globals:
  "num_page_chunks (add_free ptr st) = num_page_chunks st"
  "map_multiplier (add_free ptr st) = map_multiplier st"
  "unmap_calls (add_free ptr st) = unmap_calls st"
  "map_calls (add_free ptr st) = map_calls st"
  "pagesize (add_free ptr st) = pagesize st"
  by (simp_all add: add_free_def Let_def)

lemma coalesce_globals:
  "num_page_chunks (snd (coalesce ptr st)) = num_page_chunks st"
  "map_multiplier (snd (coalesce ptr st)) = map_multiplier st"
  "unmap_calls (snd (coalesce ptr st)) = unmap_calls st"
  "map_calls (snd (coalesce ptr st)) = map_calls st"
  "pagesize (snd (coalesce ptr st)) = pagesize st"
  by (simp_all add: coalesce_def Let_def add_free_globals del_free_globals)

lemma try_unmap_multiplier: "map_multiplier (try_unmap bp st) = map_multiplier st"
  by (simp add: try_unmap_def Let_def del_free_globals)

lemma mm_free_multiplier: "map_multiplier (mm_free p st) = map_multiplier st"
  by (simp add: mm_free_unmark Let_def try_unmap_multiplier coalesce_globals unmark_globals)

lemma allocate_globals:
  "num_page_chunks (allocate bp sz st) = num_page_chunks st"
  "map_multiplier (allocate bp sz st) = map_multiplier st"
  "unmap_calls (allocate bp sz st) = unmap_calls st"
  "map_calls (allocate bp sz st) = map_calls st"
  "pagesize (allocate bp sz st) = pagesize st"
  by (simp_all add: allocate_def Let_def add_free_globals del_free_globals)

lemma find_from_multiplier:
  assumes "find_from r n st = Some y"
  shows "map_multiplier (snd y) = map_multiplier st"
proof (rule find_from.raw_induct[where P = "\<lambda>r n st y. map_multiplier (snd y) = map_multiplier st", OF _ assms])
  fix f r n st y
  assume IH: "\<And>r n st y. f r n st = Some y \<Longrightarrow> map_multiplier (snd y) = map_multiplier st"
    and eq: "(if n = 0 then Some (0, st)
      else if r \<le> GET_SIZE (mem st) (HDRP n) then Some (n, allocate n r st)
      else f r (node_next (mem st) n) st) = Some y"
  show "map_multiplier (snd y) = map_multiplier st"
    using eq IH by (auto split: if_splits simp: allocate_globals)
qed

lemma extend_multiplier:
  "map_multiplier (snd (extend pager sz st)) =
     (if map_multiplier st <s MAX_PAGE_PER_MAP then map_multiplier st * 2 else map_multiplier st)"
  by (simp add: extend_def Let_def add_free_globals)

lemma steps_double:
  "m \<in> steps \<Longrightarrow> (if m <s MAX_PAGE_PER_MAP then m * 2 else m) \<in> steps \<and>
     m \<le>s (if m <s MAX_PAGE_PER_MAP then m * 2 else m)"
  by (auto simp: steps_def MAX_PAGE_PER_MAP_def word_sle_eq word_sless_alt)

lemma mm_malloc_multiplier:
  assumes "mm_malloc pager n st = Some (p, st')" and "map_multiplier st \<in> steps"
  shows "map_multiplier st' \<in> steps \<and> map_multiplier st \<le>s map_multiplier st'"
proof -
  let ?r = "scast (ucast (ALIGN (n + OVERHEAD)) :: cint) :: size_t"
  from assms(1) obtain q s1 where f1: "find_free_block ?r st = Some (q, s1)"
    by (auto simp: mm_malloc_def Let_def split: option.splits)
  then have m1: "map_multiplier s1 = map_multiplier st"
    using find_from_multiplier[of ?r "free_list st" st "(q, s1)"] by (simp add: find_free_block_def)
  show ?thesis
  proof (cases "q = 0")
    case False
    with assms(1) f1 have "st' = s1" by (simp add: mm_malloc_def Let_def)
    with m1 assms(2) show ?thesis by (simp add: word_sle_eq)
  next
    case True
    obtain p2 s2 where e: "extend pager ?r s1 = (p2, s2)" by (cases "extend pager ?r s1")
    have m2: "map_multiplier s2 \<in> steps \<and> map_multiplier st \<le>s map_multiplier s2"
      using extend_multiplier[of pager ?r s1] e m1 steps_double[OF assms(2)]
      by (auto split: if_splits)
    show ?thesis
    proof (cases "p2 = 0")
      case True
      with assms(1) f1 e \<open>q = 0\<close> have "st' = s2" by (simp add: mm_malloc_def Let_def)
      with m2 show ?thesis by simp
    next
      case False
      with assms(1) f1 e \<open>q = 0\<close> have "find_free_block ?r s2 = Some (p, st')"
        by (simp add: mm_malloc_def Let_def)
      then have "map_multiplier st' = map_multiplier s2"
        using find_from_multiplier[of ?r "free_list s2" s2 "(p, st')"] by (simp add: find_free_block_def)
      with m2 show ?thesis by simp
    qed
  qed
qed

lemma run_multiplier:
  "run cs st = Some st' \<Longrightarrow> map_multiplier st \<in> steps \<Longrightarrow>
     map_multiplier st' \<in> steps \<and> map_multiplier st \<le>s map_multiplier st'"
proof (induction cs arbitrary: st)
  case Nil
  then show ?case by (simp add: word_sle_eq)
next
  case (Cons c cs)
  show ?case
  proof (cases c)
    case (Malloc pager n)
    with Cons.prems(1) obtain p s1 where m: "mm_malloc pager n st = Some (p, s1)"
      and r: "run cs s1 = Some st'"
      by (auto split: option.splits)
    from mm_malloc_multiplier[OF m Cons.prems(2)] Cons.IH[OF r]
    show ?thesis by (auto simp: word_sle_eq)
  next
    case (Free p)
    with Cons.prems(1) have r: "run cs (mm_free p st) = Some st'" by simp
    from Cons.IH[OF r] Cons.prems(2) show ?thesis by (simp add: mm_free_multiplier)
  qed
qed

section \<open>Requests whose size computation overflows\<close>

text \<open>
  C1. The claim: after \<^verbatim>\<open>mm_init\<close>, \<^verbatim>\<open>mm_malloc(SIZE_MAX)\<close> makes the pager return
  null and returns null itself, and a following \<^verbatim>\<open>mm_malloc(16)\<close> succeeds.
  The code computes \<^verbatim>\<open>size + OVERHEAD\<close> in \<^verbatim>\<open>size_t\<close>, where
  \<^verbatim>\<open>SIZE_MAX + 16\<close> wraps to 15, and aligns that to 16, so the request the rest of
  \<^verbatim>\<open>mm_malloc\<close> works with is 16 bytes. The theorem follows the call up to the
  answer of the pager, with a page size of 4096 and a pager that refuses every request
  above 1 GiB: the first search finds the free list empty, \<^verbatim>\<open>extend(16)\<close> asks the
  pager for 4096 bytes, the pager answers with the chunk at \<open>0x10000\<close> and not with
  null, and \<^verbatim>\<open>extend\<close> publishes a free block of 4064 bytes at \<open>0x10020\<close>.
\<close>

theorem malloc_size_max_maps_page:
  "(scast (ucast (ALIGN (0xFFFFFFFFFFFFFFFF + OVERHEAD)) :: cint) :: size_t) = 16
   \<and> find_free_block 16 (mm_init 4096 boot) = Some (0, mm_init 4096 boot)
   \<and> (case extend (limited 0x10000) 16 (mm_init 4096 boot) of
         (p, s) \<Rightarrow> map_calls s = [4096] \<and> recent_page s = 0x10000 \<and> num_page_chunks s = 1 \<and>
           p = 0x10020 \<and> free_list s = 0x10020 \<and> GET (mem s) (HDRP p) = 4064)"
  by (simp add: eval_simps cong: let_weak_cong)

text \<open>
  C2. The claim: between public calls every block between a sentinel and its terminator
  has equal header and footer and a size that is a multiple of 16 and at least
  \<^verbatim>\<open>MIN_BLOCK_SIZE\<close>, the sentinel and the terminator excepted from the size bound.
  \<^verbatim>\<open>mm_malloc\<close> stores the aligned size in an \<^verbatim>\<open>int\<close>. For a request of
  \<open>2^32 - 16\<close> bytes the aligned size is \<open>2^32\<close> and the \<^verbatim>\<open>int\<close> keeps 0, so
  \<^verbatim>\<open>allocate(bp, 0)\<close> splits a block of size 0 off the new block: its footer is
  written at \<open>bp - 16\<close>, which is the footer of the sentinel. The theorem evaluates
  \<^verbatim>\<open>mm_init(); mm_malloc(4294967280)\<close>: the call maps one page and returns
  \<open>0x10020\<close>; afterwards the header of the sentinel (at the chunk base plus
  \<^verbatim>\<open>PAGE_PAD\<close>) holds \<open>16 | 1\<close> and its footer holds 0.
\<close>

theorem malloc_zeroes_sentinel_footer:
  "case mm_malloc (grant 0x10000) 4294967280 (mm_init 4096 boot) of
     None \<Rightarrow> False
   | Some (p, s) \<Rightarrow>
       p = 0x10020 \<and> map_calls s = [4096] \<and> recent_page s = 0x10000 \<and>
       GET (mem s) (recent_page s + PAGE_PAD) = PACK OVERHEAD 1 \<and>
       GET (mem s) (recent_page s + PAGE_PAD + 8) = 0 \<and>
       PREV_BLKP (mem s) p = p"
  by (simp add: eval_simps cong: let_weak_cong)

text \<open>
  C6. The claim: between public calls no two consecutive blocks are both unallocated, and
  a block is on the free list exactly when its allocated bit is 0.
  The theorem evaluates \<^verbatim>\<open>mm_init(); mm_malloc(4294967280)\<close>, where the \<^verbatim>\<open>int\<close>
  that holds the aligned size keeps 0: \<^verbatim>\<open>allocate(bp, 0)\<close> inserts the block after
  the split, which is \<open>bp\<close> itself, into the free list whose head is \<open>bp\<close>, so the node
  is linked to itself and \<^verbatim>\<open>del_free(bp)\<close> leaves it there. After the call the
  returned block has its allocated bit set in header and footer, it is the head of the free
  list, and its \<^verbatim>\<open>next\<close> and \<^verbatim>\<open>prev\<close> links point to itself.
\<close>

theorem malloc_allocated_block_on_free_list:
  "case mm_malloc (grant 0x10000) 4294967280 (mm_init 4096 boot) of
     None \<Rightarrow> False
   | Some (p, s) \<Rightarrow>
       p = 0x10020 \<and> GET_ALLOC (mem s) (HDRP p) = 1 \<and> GET_ALLOC (mem s) (FTRP (mem s) p) = 1 \<and>
       GET_SIZE (mem s) (HDRP p) = 4064 \<and>
       free_list s = p \<and> node_next (mem s) p = p \<and> node_prev (mem s) p = p"
  by (simp add: eval_simps cong: let_weak_cong)

text \<open>
  C7. The claim: every successful request of \<open>r\<close> bytes returns a pointer divisible by
  16 with at least \<open>r\<close> payload bytes behind it.
  \<^verbatim>\<open>mm_malloc\<close> stores the aligned size in an \<^verbatim>\<open>int\<close>. The theorem evaluates a
  request of \<open>2^32 + 16\<close> bytes: the \<^verbatim>\<open>int\<close> keeps 32, and the call returns a block
  with 16 payload bytes.
\<close>

theorem malloc_truncated_request:
  "case mm_malloc (grant 0x10000) 4294967312 (mm_init 4096 boot) of
     None \<Rightarrow> False
   | Some (p, s) \<Rightarrow>
       p = 0x10020 \<and> GET_SIZE (mem s) (HDRP p) - OVERHEAD = 16 \<and>
       GET_SIZE (mem s) (HDRP p) - OVERHEAD < 4294967312"
  by (simp add: eval_simps cong: let_weak_cong)

text \<open>
  C5. The claim: \<^verbatim>\<open>extend(need)\<close> requests exactly the larger of
  \<^verbatim>\<open>page_align(need + PAGE_OVERHEAD)\<close> and \<^verbatim>\<open>map_multiplier * pagesize\<close> bytes, frames
  the chunk, and publishes a free block of at least \<open>need\<close> bytes, so that the second
  first-fit search succeeds.
  \<^verbatim>\<open>extend\<close> stores the page-aligned size in an \<^verbatim>\<open>int\<close>. The theorem evaluates
  \<open>need = 2147483632\<close>, the size \<^verbatim>\<open>mm_malloc(2147483616)\<close> asks for: the page-aligned
  size is 2147487744, the \<^verbatim>\<open>int\<close> is negative, the pager is asked for 4096 bytes, the
  published block has 4064 bytes, the second search finds nothing, and
  \<^verbatim>\<open>mm_malloc\<close> returns null with the new chunk mapped.
\<close>

theorem extend_truncated_request:
  "(case extend (grant 0x10000) 2147483632 (mm_init 4096 boot) of
      (p, s) \<Rightarrow> p = 0x10020 \<and> map_calls s = [4096] \<and> GET_SIZE (mem s) (HDRP p) = 4064 \<and>
        map_option fst (find_free_block 2147483632 s) = Some 0)
   \<and> PAGE_ALIGN 4096 (2147483632 + PAGE_OVERHEAD) = 2147487744
   \<and> map_option (\<lambda>(p, s). (p, map_calls s, num_page_chunks s))
        (mm_malloc (grant 0x10000) 2147483616 (mm_init 4096 boot)) = Some (0, [4096], 1)"
  by (simp add: eval_simps cong: let_weak_cong)

section \<open>The map multiplier\<close>

text \<open>
  C9. The multiplier doubles in every \<^verbatim>\<open>extend\<close> call while it is below
  \<^verbatim>\<open>MAX_PAGE_PER_MAP\<close> = 32, whatever the pager answers, and also when the pager
  refuses; \<^verbatim>\<open>try_unmap\<close> and \<^verbatim>\<open>mm_free\<close> leave it unchanged; over every run of
  client calls that starts with a multiplier in \<open>steps\<close> (as \<^verbatim>\<open>mm_init\<close> leaves it)
  the multiplier stays in \<open>steps\<close>, does not decrease and is at most 32.
\<close>

theorem multiplier_doubles_saturates:
  "map_multiplier (snd (extend pager sz st)) =
     (if map_multiplier st <s MAX_PAGE_PER_MAP then map_multiplier st * 2 else map_multiplier st)
   \<and> fst (extend refuse sz st) = 0
   \<and> map_multiplier (try_unmap bp st) = map_multiplier st
   \<and> map_multiplier (mm_free p st) = map_multiplier st
   \<and> (map_multiplier st \<in> steps \<longrightarrow> run cs st = Some st' \<longrightarrow>
        map_multiplier st' \<in> steps \<and> map_multiplier st \<le>s map_multiplier st' \<and>
        map_multiplier st' \<le>s MAX_PAGE_PER_MAP)"
proof -
  have "fst (extend refuse sz st) = 0"
    by (simp add: extend_def refuse_def Let_def)
  moreover have "m \<in> steps \<Longrightarrow> m \<le>s MAX_PAGE_PER_MAP" for m
    by (auto simp: steps_def MAX_PAGE_PER_MAP_def word_sle_eq)
  ultimately show ?thesis
    using run_multiplier[of cs st st']
    by (simp add: extend_multiplier try_unmap_multiplier mm_free_multiplier)
qed

theorem multiplier_doubles_saturates_witness:
  "map_multiplier (mm_init 4096 boot) \<in> steps \<and>
   (case run [Malloc refuse 16, Malloc (grant 0x10000) 16, Malloc (grant 0x20000) 9000, Free 0x20020]
           (mm_init 4096 boot) of
      None \<Rightarrow> False
    | Some s \<Rightarrow> map_multiplier s \<in> steps \<and> map_multiplier (mm_init 4096 boot) \<le>s map_multiplier s
        \<and> map_multiplier s \<le>s MAX_PAGE_PER_MAP)"
proof -
  have h: "map_multiplier (mm_init 4096 boot) \<in> steps"
    by (simp add: mm_init_def steps_def)
  have "case run [Malloc refuse 16, Malloc (grant 0x10000) 16,
           Malloc (grant 0x20000) 9000, Free 0x20020] (mm_init 4096 boot) of
          None \<Rightarrow> False | Some s \<Rightarrow> True"
    by (simp add: eval_simps cong: let_weak_cong)
  then obtain s where r: "run [Malloc refuse 16, Malloc (grant 0x10000) 16,
           Malloc (grant 0x20000) 9000, Free 0x20020] (mm_init 4096 boot) = Some s"
    by (auto split: option.splits)
  from multiplier_doubles_saturates[where st = "mm_init 4096 boot" and st' = s
      and cs = "[Malloc refuse 16, Malloc (grant 0x10000) 16, Malloc (grant 0x20000) 9000, Free 0x20020]"]
    h r show ?thesis by (simp del: run.simps)
qed

section \<open>Freeing\<close>

text \<open>
  C10. \<^verbatim>\<open>coalesce\<close> returns the left neighbour when that is free and \<open>ptr\<close>
  otherwise: the four cases are exhaustive and the trailing \<^verbatim>\<open>return NULL\<close> is never
  reached. For a non-null \<open>ptr\<close> whose left neighbour is readable (non-null) the result
  is non-null, so \<^verbatim>\<open>mm_free\<close> hands a block pointer to \<^verbatim>\<open>try_unmap\<close>.
\<close>

theorem coalesce_returns_block:
  "fst (coalesce ptr st) =
     (if GET_ALLOC (mem st) (HDRP (PREV_BLKP (mem st) ptr)) = 0
      then PREV_BLKP (mem st) ptr else ptr)
   \<and> (ptr \<noteq> 0 \<longrightarrow> PREV_BLKP (mem st) ptr \<noteq> 0 \<longrightarrow> fst (coalesce ptr st) \<noteq> 0)"
  by (simp add: coalesce_fst)

theorem coalesce_returns_block_witness:
  "case run [Malloc (grant 0x10000) 16] (mm_init 4096 boot) of
     None \<Rightarrow> False
   | Some s \<Rightarrow> (0x10020 :: addr) \<noteq> 0 \<and> PREV_BLKP (mem (unmark 0x10020 s)) 0x10020 \<noteq> 0 \<and>
       fst (coalesce 0x10020 (unmark 0x10020 s)) \<noteq> 0"
proof -
  have "case run [Malloc (grant 0x10000) 16] (mm_init 4096 boot) of
     None \<Rightarrow> False
   | Some s \<Rightarrow> PREV_BLKP (mem (unmark 0x10020 s)) 0x10020 \<noteq> 0"
    by (simp add: eval_simps cong: let_weak_cong)
  then obtain s where r: "run [Malloc (grant 0x10000) 16] (mm_init 4096 boot) = Some s"
    and h: "PREV_BLKP (mem (unmark 0x10020 s)) 0x10020 \<noteq> 0"
    by (auto split: option.splits)
  have "fst (coalesce 0x10020 (unmark 0x10020 s)) \<noteq> 0"
    using coalesce_returns_block[of "0x10020" "unmark 0x10020 s"] h by simp
  with h r show ?thesis by simp
qed

section \<open>The free list in the store\<close>

lemma aligned16_mask: "aligned16 a \<longleftrightarrow> a AND mask 4 = 0"
  by (simp add: aligned16_def mask_eq_exp_minus_1)

lemma aligned16_size [simp]: "aligned16 (v AND NOT 15)"
  by (simp add: aligned16_def word_bw_assocs)

lemma aligned16_add: "aligned16 a \<Longrightarrow> aligned16 b \<Longrightarrow> aligned16 (a + b)"
proof -
  assume *: "aligned16 a" "aligned16 b"
  have "(a + b) AND mask 4 = ((a AND mask 4) + (b AND mask 4)) AND mask 4"
    by (simp only: mask_eqs)
  also have "\<dots> = 0" using * by (simp add: aligned16_mask)
  finally show ?thesis by (simp only: aligned16_mask)
qed

lemma aligned16_diff: "aligned16 a \<Longrightarrow> aligned16 b \<Longrightarrow> aligned16 (a - b)"
proof -
  assume *: "aligned16 a" "aligned16 b"
  have "(a - b) AND mask 4 = ((a AND mask 4) - (b AND mask 4)) AND mask 4"
    by (simp only: mask_eqs)
  also have "\<dots> = 0" using * by (simp add: aligned16_mask)
  finally show ?thesis by (simp only: aligned16_mask)
qed

lemma aligned16_numerals [simp]: "aligned16 0" "aligned16 16" "aligned16 32"
  "\<not> aligned16 8" "\<not> aligned16 (- 8)" "\<not> aligned16 24" "\<not> aligned16 (- 24)"
  by (simp_all add: aligned16_def)

lemma aligned16_plus8: "aligned16 a \<Longrightarrow> aligned16 b \<Longrightarrow> a + 8 \<noteq> b"
proof
  assume *: "aligned16 a" "aligned16 b" and e: "a + 8 = b"
  have "b - a = 8" unfolding e[symmetric] by simp
  with aligned16_diff[OF *(2) *(1)] show False by simp
qed

lemma dlseg_append:
  "dlseg m pv p (as @ bs) q \<longleftrightarrow>
     (\<exists>r. dlseg m pv p as r \<and> dlseg m (last (pv # as)) r bs q)"
  by (induction as arbitrary: pv p) auto

lemma dlseg_frame:
  "\<forall>x\<in>set xs. a \<noteq> x \<and> a \<noteq> x + 8 \<Longrightarrow> dlseg (m(a := v)) pv p xs q = dlseg m pv p xs q"
  by (induction xs arbitrary: pv p) (auto simp: node_prev_def node_next_def)

lemma apart_aligned: "\<forall>x\<in>set xs. aligned16 x \<Longrightarrow> apart xs"
  by (auto simp: apart_def dest: aligned16_plus8)

lemma dlseg_set_last_next:
  "xs \<noteq> [] \<Longrightarrow> dlseg m pv p xs q \<Longrightarrow> distinct xs \<Longrightarrow> apart xs \<Longrightarrow>
     dlseg (m(last xs := q')) pv p xs q'"
proof (induction xs arbitrary: pv p)
  case Nil
  then show ?case by simp
next
  case (Cons x xs)
  show ?case
  proof (cases "xs = []")
    case True
    with Cons.prems show ?thesis by (auto simp: node_prev_def node_next_def)
  next
    case False
    let ?m = "m(last xs := q')"
    from False have "last xs \<in> set xs" by simp
    with Cons.prems(3,4) have l: "last xs \<noteq> x" "last xs \<noteq> x + 8"
      by (auto simp: apart_def)
    then have n: "node_next ?m x = node_next m x" "node_prev ?m x = node_prev m x"
      by (simp_all add: node_next_def node_prev_def)
    have a: "apart xs" using Cons.prems(4) by (auto simp: apart_def)
    from Cons.prems have d: "dlseg m x (node_next m x) xs q" and di: "distinct xs" by simp_all
    have "dlseg ?m x (node_next m x) xs q'" by (rule Cons.IH[OF False d di a])
    with Cons.prems(2) n have "dlseg ?m pv p (x # xs) q'" by simp
    then show ?thesis by (simp only: last_ConsR[OF False])
  qed
qed

lemma dlseg_set_head_prev:
  "dlseg m pv p (x # xs) q \<Longrightarrow> distinct (x # xs) \<Longrightarrow> apart (x # xs) \<Longrightarrow>
     dlseg (m(x + 8 := pv')) pv' p (x # xs) q"
proof -
  assume d: "dlseg m pv p (x # xs) q" and di: "distinct (x # xs)" and ap: "apart (x # xs)"
  have "\<forall>y\<in>set xs. x + 8 \<noteq> y \<and> x + 8 \<noteq> y + 8"
    using di ap by (auto simp: apart_def)
  then have "dlseg (m(x + 8 := pv')) x (node_next m x) xs q = dlseg m x (node_next m x) xs q"
    by (rule dlseg_frame)
  with d show ?thesis by (simp add: node_prev_def node_next_def)
qed

lemma dlseg_nonzero: "dlseg m pv p xs q \<Longrightarrow> 0 \<notin> set xs"
  by (induction xs arbitrary: pv p) auto

lemma dll_null: "dll m 0 xs \<longleftrightarrow> xs = []"
  by (cases xs) (auto simp: dll_def)

lemma add_free_dll:
  assumes l: "dll (mem st) (free_list st) xs"
    and p: "p \<noteq> 0" "p \<notin> set xs" "aligned16 p"
    and xs: "\<forall>x\<in>set xs. aligned16 x" "distinct xs"
  shows "dll (mem (add_free p st)) (free_list (add_free p st)) (p # xs)"
proof (cases "free_list st = 0")
  case True
  with l have "xs = []" by (simp add: dll_null)
  with True p show ?thesis
    by (simp add: add_free_def dll_def Let_def set_next_def set_prev_def node_next_def
        node_prev_def)
next
  case False
  let ?F = "free_list st"
  let ?m = "mem st"
  from False l obtain ys where ys: "xs = ?F # ys" by (cases xs) (auto simp: dll_def)
  have ne: "?F \<noteq> p" "?F + 8 \<noteq> p" "p + 8 \<noteq> ?F"
    using ys p xs by (auto dest: aligned16_plus8)
  let ?m1 = "?m(p + 8 := 0, p := ?F)"
  have fr: "\<forall>x\<in>set xs. p \<noteq> x \<and> p \<noteq> x + 8 \<and> p + 8 \<noteq> x \<and> p + 8 \<noteq> x + 8"
    using p xs by (auto dest: aligned16_plus8)
  have ap: "apart (?F # ys)" using xs(1) unfolding ys by (rule apart_aligned)
  have di: "distinct (?F # ys)" using xs(2) unfolding ys .
  have "dlseg ?m1 0 ?F xs 0"
    using l fr by (simp add: dll_def dlseg_frame)
  then have d1: "dlseg ?m1 0 ?F (?F # ys) 0" unfolding ys .
  have "dlseg (?m1(?F + 8 := p)) p ?F (?F # ys) 0"
    by (rule dlseg_set_head_prev[OF d1 di ap])
  then have "dlseg (?m1(?F + 8 := p)) p ?F xs 0" unfolding ys .
  moreover have "mem (add_free p st) = ?m1(?F + 8 := p)" "free_list (add_free p st) = p"
    using False by (simp_all add: add_free_def Let_def set_next_def set_prev_def)
  ultimately show ?thesis
    using p ne by (simp add: dll_def node_next_def node_prev_def)
qed

lemma del_free_dll:
  assumes l: "dll (mem st) (free_list st) xs"
    and r: "r \<in> set xs"
    and xs: "\<forall>x\<in>set xs. aligned16 x" "distinct xs"
  shows "dll (mem (del_free r st)) (free_list (del_free r st)) (remove1 r xs)"
proof -
  let ?m = "mem st" and ?F = "free_list st"
  from r obtain as bs where sp: "xs = as @ r # bs" by (auto dest: split_list)
  with xs(2) have nin: "r \<notin> set as" "r \<notin> set bs" "set as \<inter> set bs = {}"
    and di: "distinct as" "distinct bs" by auto
  have rem: "remove1 r xs = as @ bs" using sp nin by (simp add: remove1_append)
  define pR where "pR = last (0 # as)"
  define nR where "nR = node_next ?m r"
  from l sp have sa: "dlseg ?m 0 ?F as r" and pr: "node_prev ?m r = pR"
    and sb: "dlseg ?m r nR bs 0" and r0: "r \<noteq> 0"
    by (auto simp: dll_def dlseg_append pR_def nR_def)
  have al: "aligned16 r" "\<forall>x\<in>set as. aligned16 x" "\<forall>x\<in>set bs. aligned16 x"
    using xs(1) sp by auto
  have ap: "apart as" "apart bs" using al by (auto intro: apart_aligned)
  have pR: "pR = 0 \<longleftrightarrow> as = []" "as \<noteq> [] \<Longrightarrow> pR = last as \<and> pR \<in> set as"
    using dlseg_nonzero[OF sa] by (auto simp: pR_def) (metis last_in_set)
  have nR: "nR = 0 \<longleftrightarrow> bs = []" "bs \<noteq> [] \<Longrightarrow> nR = hd bs \<and> nR \<in> set bs"
    using sb dlseg_nonzero[OF sb] by (cases bs; auto)+
  have F: "?F = r \<longleftrightarrow> as = []"
    using sa nin(1) by (cases as) auto
  define m1 where "m1 = (if pR \<noteq> 0 then ?m(pR := nR) else ?m)"
  have apR: "aligned16 pR" using pR al(2) by (cases "as = []") auto
  have anR: "aligned16 nR" using nR al(3) by (cases "bs = []") auto
  have pRr: "pR \<noteq> r" "pR \<noteq> r + 8"
  proof -
    show "pR \<noteq> r" using pR nin(1) r0 by (cases "as = []") auto
    show "pR \<noteq> r + 8" using aligned16_plus8[OF al(1) apR] by auto
  qed
  have m1r: "node_next m1 r = nR" "node_prev m1 r = pR"
    using pRr pr by (auto simp: m1_def node_next_def node_prev_def nR_def)
  define m2 where "m2 = (if nR \<noteq> 0 then m1(nR + 8 := pR) else m1)"
  have nRr: "nR + 8 \<noteq> r"
    by (rule aligned16_plus8[OF anR al(1)])
  have m2r: "node_next m2 r = nR"
    using m1r nRr by (auto simp: m2_def node_next_def)
  have e1: "(if node_prev ?m r \<noteq> 0 then set_next ?m (node_prev ?m r) (node_next ?m r) else ?m)
      = m1"
    by (simp add: m1_def pr nR_def set_next_def)
  have e2: "(if node_next m1 r \<noteq> 0 then set_prev m1 (node_next m1 r) (node_prev m1 r) else m1)
      = m2"
    by (simp add: m2_def m1r set_prev_def)
  have mem: "mem (del_free r st) = m2"
    unfolding del_free_def Let_def e1 e2 by simp
  have "free_list (del_free r st) = (if r = ?F then node_next m2 ?F else ?F)"
    unfolding del_free_def Let_def e1 e2 by simp
  then have fl: "free_list (del_free r st) = (if as = [] then nR else ?F)"
    using F m2r by auto
  have A: "dlseg m2 0 (if as = [] then nR else ?F) as nR"
  proof (cases "as = []")
    case True
    then show ?thesis by simp
  next
    case False
    with pR have e: "pR = last as" "pR \<noteq> 0" by auto
    have "dlseg (?m(last as := nR)) 0 ?F as nR"
      by (rule dlseg_set_last_next[OF False sa di(1) ap(1)])
    then have 1: "dlseg m1 0 ?F as nR" using e by (simp add: m1_def)
    have "dlseg m2 0 ?F as nR"
    proof (cases "nR = 0")
      case True
      with 1 show ?thesis by (simp add: m2_def)
    next
      case False
      with nR have "nR \<in> set bs" by auto
      have "\<forall>x\<in>set as. nR + 8 \<noteq> x \<and> nR + 8 \<noteq> x + 8"
      proof (intro ballI conjI)
        fix x assume x: "x \<in> set as"
        with al(2) have "aligned16 x" by auto
        then show "nR + 8 \<noteq> x" by (rule aligned16_plus8[OF anR])
        from x \<open>nR \<in> set bs\<close> nin(3) show "nR + 8 \<noteq> x + 8" by auto
      qed
      with 1 False show ?thesis by (simp add: m2_def dlseg_frame)
    qed
    with False show ?thesis by simp
  qed
  have B: "dlseg m2 pR nR bs 0"
  proof (cases "bs = []")
    case True
    with nR show ?thesis by simp
  next
    case False
    with nR have e: "nR = hd bs" "nR \<noteq> 0" by auto
    have 1: "dlseg m1 r nR bs 0"
    proof (cases "pR = 0")
      case True
      with sb show ?thesis by (simp add: m1_def)
    next
      case False
      with pR have "pR \<in> set as" by auto
      have "\<forall>x\<in>set bs. pR \<noteq> x \<and> pR \<noteq> x + 8"
      proof (intro ballI conjI)
        fix x assume x: "x \<in> set bs"
        with al(3) have "aligned16 x" by auto
        from aligned16_plus8[OF this apR] show "pR \<noteq> x + 8" by auto
        from x \<open>pR \<in> set as\<close> nin(3) show "pR \<noteq> x" by auto
      qed
      with sb False show ?thesis by (simp add: m1_def dlseg_frame)
    qed
    from False e obtain bs' where bs: "bs = nR # bs'" by (cases bs) auto
    have "dlseg (m1(nR + 8 := pR)) pR nR (nR # bs') 0"
      using 1 di(2) ap(2) unfolding bs by (rule dlseg_set_head_prev)
    with e bs show ?thesis by (simp add: m2_def)
  qed
  have "dlseg m2 0 (if as = [] then nR else ?F) (as @ bs) 0"
    unfolding dlseg_append using A B by (auto simp: pR_def)
  with mem fl rem show ?thesis by (simp add: dll_def)
qed

section \<open>Coalescing\<close>

lemma unat_plus:
  "unat a + unat b < 2 ^ 64 \<Longrightarrow> unat (a + b) = unat a + unat b" for a b :: "64 word"
  using unat_add_lem[of a b] by simp

lemma unat_minus:
  "unat b \<le> unat a \<Longrightarrow> unat (a - b) = unat a - unat b" for a b :: "64 word"
  by (simp add: unat_sub word_le_nat_alt)

lemma aligned16_mask_id:
  assumes "aligned16 a"
  shows "a AND NOT 15 = a"
proof (rule bit_eqI)
  fix n
  from assms have "bit (a AND 15) n = bit (0::64 word) n" by (simp add: aligned16_def)
  then have "\<not> (bit a n \<and> bit (15::64 word) n)" by (simp add: bit_and_iff)
  then show "bit (a AND NOT 15) n = bit a n"
    unfolding bit_and_iff bit_not_iff using bit_imp_possible_bit[of a n] by blast
qed

lemma aligned16_bit0: "aligned16 a \<Longrightarrow> a AND 1 = 0"
proof -
  assume "aligned16 a"
  then have "a AND 15 = 0" by (simp add: aligned16_def)
  then have "(a AND 15) AND 1 = 0" by simp
  then show ?thesis by (simp add: word_bw_assocs)
qed

lemma hdr_not_node:
  "aligned16 b \<Longrightarrow> aligned16 x \<Longrightarrow> x + 16 \<noteq> b \<Longrightarrow> b - 8 \<noteq> x \<and> b - 8 \<noteq> x + 8"
proof (intro conjI notI)
  assume a: "aligned16 b" "aligned16 x" and n: "x + 16 \<noteq> b"
  { assume e: "b - 8 = x"
    have "x + 8 = b" unfolding e[symmetric] by simp
    with aligned16_plus8[OF a(2) a(1)] show False by simp }
  { assume e: "b - 8 = x + 8"
    have "b = b - 8 + 8" by simp
    also have "\<dots> = x + 16" unfolding e by simp
    finally show False using n by simp }
qed

lemma ftr_not_node:
  "aligned16 b \<Longrightarrow> aligned16 x \<Longrightarrow> x + 16 \<noteq> b \<Longrightarrow> b - 16 \<noteq> x \<and> b - 16 \<noteq> x + 8"
proof (intro conjI notI)
  assume a: "aligned16 b" "aligned16 x" and n: "x + 16 \<noteq> b"
  { assume e: "b - 16 = x"
    have "x + 16 = b" unfolding e[symmetric] by simp
    with n show False by simp }
  { assume e: "b - 16 = x + 8"
    have "aligned16 (b - 16)" using a by (intro aligned16_diff) simp_all
    with aligned16_plus8[OF a(2) this] e show False by simp }
qed

lemma hdr_not_ftr: "aligned16 a \<Longrightarrow> aligned16 b \<Longrightarrow> a - 8 \<noteq> b - 16"
proof
  assume a: "aligned16 a" "aligned16 b" and e: "a - 8 = b - 16"
  have "aligned16 (b - 16)" using a by (intro aligned16_diff) simp_all
  moreover have "b - 16 + 8 = a" unfolding e[symmetric] by simp
  ultimately show False using aligned16_plus8[of "b - 16" a] a by simp
qed

lemma add_free_frame:
  "a \<noteq> p \<Longrightarrow> a \<noteq> p + 8 \<Longrightarrow> (free_list st \<noteq> 0 \<Longrightarrow> a \<noteq> free_list st + 8) \<Longrightarrow>
     mem (add_free p st) a = mem st a"
  by (simp add: add_free_def Let_def set_next_def set_prev_def)

lemma dlseg_links:
  "dlseg m pv p xs q \<Longrightarrow> r \<in> set xs \<Longrightarrow>
     node_prev m r \<in> insert pv (set xs) \<and> node_next m r \<in> insert q (set xs)"
proof (induction xs arbitrary: pv p)
  case Nil
  then show ?case by simp
next
  case (Cons x xs)
  show ?case
  proof (cases "r = x")
    case True
    with Cons.prems show ?thesis by (cases xs) auto
  next
    case False
    with Cons.prems have "dlseg m x (node_next m x) xs q" "r \<in> set xs" by auto
    from Cons.IH[OF this] show ?thesis by auto
  qed
qed

lemma del_free_frame:
  assumes l: "dll (mem st) (free_list st) xs" and r: "r \<in> set xs"
    and a: "\<forall>x\<in>set xs. a \<noteq> x \<and> a \<noteq> x + 8"
  shows "mem (del_free r st) a = mem st a"
proof -
  let ?m = "mem st"
  from dlseg_links[OF l[unfolded dll_def] r]
  have pn: "node_prev ?m r = 0 \<or> node_prev ?m r \<in> set xs"
    "node_next ?m r = 0 \<or> node_next ?m r \<in> set xs" by auto
  define m1 where "m1 = (if node_prev ?m r \<noteq> 0
    then set_next ?m (node_prev ?m r) (node_next ?m r) else ?m)"
  have n1: "node_next m1 r = node_next ?m r"
    by (simp add: m1_def set_next_def node_next_def)
  have a1: "m1 a = ?m a"
    using pn(1) a by (auto simp: m1_def set_next_def)
  define m2 where "m2 = (if node_next m1 r \<noteq> 0
    then set_prev m1 (node_next m1 r) (node_prev m1 r) else m1)"
  have a2: "m2 a = m1 a"
    using pn(2) a n1 by (auto simp: m2_def set_prev_def)
  have "mem (del_free r st) = m2"
    unfolding del_free_def Let_def m2_def m1_def by simp
  with a1 a2 show ?thesis by simp
qed

lemma distinct_count_list1: "distinct xs \<Longrightarrow> x \<in> set xs \<Longrightarrow> count_list xs x = 1"
  by (induction xs) (auto simp: count_list_0_iff)

lemma aligned16_mask_id': "aligned16 a \<Longrightarrow> a AND - 16 = a"
  using aligned16_mask_id[of a] by simp

lemma PACK_0 [simp]: "PACK x 0 = x"
  by (simp add: PACK_def)

lemma aligned16_GET_SIZE [simp]: "aligned16 (GET_SIZE m p)"
  unfolding GET_SIZE_def by (rule aligned16_size)

lemma tag_clean:
  assumes "aligned16 b" "\<forall>x\<in>set xs. aligned16 x" "\<forall>x\<in>set xs. x + 16 \<noteq> b"
  shows "\<forall>x\<in>set xs. b - 8 \<noteq> x \<and> b - 8 \<noteq> x + 8"
    and "\<forall>x\<in>set xs. b - 16 \<noteq> x \<and> b - 16 \<noteq> x + 8"
  using assms hdr_not_node[of b] ftr_not_node[of b] by auto

lemma dll_head_in: "dll m F xs \<Longrightarrow> F \<noteq> 0 \<Longrightarrow> F \<in> set xs"
  by (cases xs) (auto simp: dll_def)

lemma coalesce_post_left:
  assumes pre: "coalesce_pre ptr st xs"
    and lf: "GET_ALLOC (mem st) (HDRP (PREV_BLKP (mem st) ptr)) = 0"
    and rf: "GET_ALLOC (mem st) (HDRP (NEXT_BLKP (mem st) ptr)) \<noteq> 0"
  shows "coalesce_post ptr st xs"
proof -
  define m where "m = mem st"
  define L where "L = PREV_BLKP m ptr"
  define R where "R = NEXT_BLKP m ptr"
  define LL where "LL = PREV_BLKP m L"
  define c where "c = GET_SIZE m (HDRP ptr)"
  define l where "l = GET_SIZE m (HDRP L)"
  define ll where "ll = GET_SIZE m (HDRP LL)"
  note defs = m_def L_def R_def LL_def c_def l_def ll_def
  have lf': "GET_ALLOC m (HDRP L) = 0" and rf': "GET_ALLOC m (HDRP R) \<noteq> 0"
    using lf rf by (simp_all add: defs)
  from pre lf rf have
    dl: "dll m (free_list st) xs" and di: "distinct xs" and alx: "\<forall>x\<in>set xs. aligned16 x"
    and alp: "aligned16 ptr"
    and cmin: "MIN_BLOCK_SIZE \<le> c"
    and lft: "GET_SIZE m (ptr - OVERHEAD) = l"
    and Lin: "L \<in> set xs" and lmin: "MIN_BLOCK_SIZE \<le> l"
    and llft: "GET_SIZE m (L - OVERHEAD) = ll" and llmin: "OVERHEAD \<le> ll"
    and LLa: "GET_ALLOC m (HDRP LL) \<noteq> 0"
    and e: "\<forall>x\<in>set xs. x + 16 \<noteq> ptr \<and> x + 16 \<noteq> L \<and> x + 16 \<noteq> R \<and> x + 16 \<noteq> LL"
    and lo: "16 + unat ll + unat l \<le> unat ptr"
    and hi: "unat ptr + unat c < 2 ^ 64"
    unfolding coalesce_pre_def Let_def defs by simp_all
  have sz: "32 \<le> unat c" "32 \<le> unat l" "16 \<le> unat ll"
    using cmin lmin llmin by (simp_all add: MIN_BLOCK_SIZE_def OVERHEAD_def ALIGNMENT_def word_le_nat_alt)
  have Leq: "L = ptr - l" using lft by (simp add: L_def PREV_BLKP_def)
  have Req: "R = ptr + c" by (simp add: R_def NEXT_BLKP_def c_def)
  have LLeq: "LL = L - ll" using llft by (simp add: LL_def PREV_BLKP_def)
  have als: "aligned16 c" "aligned16 l" "aligned16 ll" by (simp_all add: c_def l_def ll_def)
  have alb: "aligned16 L" "aligned16 R" "aligned16 LL"
    using alp als by (auto simp: Leq Req LLeq intro: aligned16_add aligned16_diff)
  have un: "unat L = unat ptr - unat l" "unat R = unat ptr + unat c"
    "unat LL = unat ptr - unat l - unat ll"
    using lo hi by (simp_all add: Leq Req LLeq unat_plus unat_minus)
  have ne: "L \<noteq> R" "LL \<noteq> L"
    using un sz lo hi by (auto simp: word_unat_eq_iff)
  have lc: "GET_SIZE (m(HDRP L := l + c)) (HDRP L) = l + c" "(l + c) AND 1 = 0"
    using aligned16_add[OF als(2,1)]
    by (simp_all add: GET_SIZE_def GET_def aligned16_mask_id' aligned16_bit0 del: aligned16_GET_SIZE)
  have ft: "L + (l + c) - OVERHEAD = R - 16" by (simp add: Leq Req OVERHEAD_def)
  define m' where "m' = m(HDRP L := l + c, R - 16 := l + c)"
  have co: "coalesce ptr st = (L, st\<lparr>mem := m'\<rparr>)"
    using lf' rf' lc ft
    by (simp add: coalesce_def Let_def PUT_def FTRP_def m'_def flip: defs)
  have hd: "HDRP L \<noteq> R - 16" unfolding HDRP_def by (rule hdr_not_ftr[OF alb(1,2)])
  have r1: "m' (HDRP L) = l + c" using hd by (simp add: m'_def)
  have r2: "m' (R - 16) = l + c" by (simp add: m'_def)
  have r3: "m' (L - OVERHEAD) = m (L - OVERHEAD)"
    using ne by (simp add: m'_def HDRP_def OVERHEAD_def)
  have r4: "m' (HDRP LL) = m (HDRP LL)"
    using ne hdr_not_ftr[OF alb(3,2)] by (simp add: m'_def HDRP_def)
  have r5: "m' (HDRP R) = m (HDRP R)"
    using ne by (simp add: m'_def HDRP_def)
  have sL: "GET_SIZE m' (HDRP L) = l + c"
    using lc(1) by (simp add: GET_SIZE_def GET_def r1)
  have p1: "GET_ALLOC m' (HDRP L) = 0"
    by (simp add: GET_ALLOC_def GET_def r1 lc)
  have p2: "GET m' (FTRP m' L) = GET m' (HDRP L)"
    by (simp add: FTRP_def sL ft GET_def r1 r2)
  have fr: "\<forall>x\<in>set xs. HDRP L \<noteq> x \<and> HDRP L \<noteq> x + 8"
    "\<forall>x\<in>set xs. R - 16 \<noteq> x \<and> R - 16 \<noteq> x + 8"
    using alx e alb hdr_not_node[of L] ftr_not_node[of R] by (auto simp: HDRP_def)
  have p3: "dll m' (free_list st) xs"
    using dl fr by (simp add: dll_def m'_def dlseg_frame)
  have p4: "count_list xs L = 1" by (rule distinct_count_list1[OF di Lin])
  have "PREV_BLKP m' L = LL"
    using llft by (simp add: PREV_BLKP_def GET_SIZE_def GET_def r3 LLeq)
  then have p5: "GET_ALLOC m' (HDRP (PREV_BLKP m' L)) \<noteq> 0"
    using LLa by (simp add: GET_ALLOC_def GET_def r4)
  have "NEXT_BLKP m' L = L + (l + c)" by (simp add: NEXT_BLKP_def sL)
  also have "\<dots> = R" by (simp add: Leq Req)
  finally have p6: "GET_ALLOC m' (HDRP (NEXT_BLKP m' L)) \<noteq> 0"
    using rf' by (simp add: GET_ALLOC_def GET_def r5)
  show ?thesis
    using lf rf p1 p2 p3 p4 p5 p6
    by (simp add: coalesce_post_def Let_def co flip: m_def L_def)
qed

lemma coalesce_post_none:
  assumes pre: "coalesce_pre ptr st xs"
    and lf: "GET_ALLOC (mem st) (HDRP (PREV_BLKP (mem st) ptr)) \<noteq> 0"
    and rf: "GET_ALLOC (mem st) (HDRP (NEXT_BLKP (mem st) ptr)) \<noteq> 0"
  shows "coalesce_post ptr st xs"
proof -
  define m where "m = mem st"
  define L where "L = PREV_BLKP m ptr"
  define R where "R = NEXT_BLKP m ptr"
  define c where "c = GET_SIZE m (HDRP ptr)"
  define l where "l = GET_SIZE m (HDRP L)"
  note defs = m_def L_def R_def c_def l_def
  have lf': "GET_ALLOC m (HDRP L) \<noteq> 0" and rf': "GET_ALLOC m (HDRP R) \<noteq> 0"
    using lf rf by (simp_all add: defs)
  from pre lf rf have
    dl: "dll m (free_list st) xs" and di: "distinct xs" and alx: "\<forall>x\<in>set xs. aligned16 x"
    and p0: "ptr \<noteq> 0" and alp: "aligned16 ptr" and pn: "ptr \<notin> set xs"
    and hp: "GET m (HDRP ptr) = c" and fp: "GET m (FTRP m ptr) = c"
    and cmin: "MIN_BLOCK_SIZE \<le> c"
    and lft: "GET_SIZE m (ptr - OVERHEAD) = l" and lmin: "OVERHEAD \<le> l"
    and e: "\<forall>x\<in>set xs. x + 16 \<noteq> ptr \<and> x + 16 \<noteq> L \<and> x + 16 \<noteq> R"
    and lo: "16 + unat l \<le> unat ptr"
    and hi: "unat ptr + unat c < 2 ^ 64"
    unfolding coalesce_pre_def Let_def defs by simp_all
  have sz: "32 \<le> unat c" "16 \<le> unat l"
    using cmin lmin by (simp_all add: MIN_BLOCK_SIZE_def OVERHEAD_def ALIGNMENT_def word_le_nat_alt)
  have Leq: "L = ptr - l" using lft by (simp add: L_def PREV_BLKP_def)
  have Req: "R = ptr + c" by (simp add: R_def NEXT_BLKP_def c_def)
  have als: "aligned16 c" "aligned16 l" by (simp_all add: c_def l_def)
  have alb: "aligned16 L" "aligned16 R"
    using alp als by (auto simp: Leq Req intro: aligned16_add aligned16_diff)
  have un: "unat L = unat ptr - unat l" "unat R = unat ptr + unat c"
    "unat (ptr + 16) = unat ptr + 16"
    using lo hi sz by (simp_all add: Leq Req unat_plus unat_minus)
  have ne: "ptr + 16 \<noteq> L" "ptr + 16 \<noteq> R" "ptr + 16 \<noteq> ptr"
    using un sz lo hi by (auto simp: word_unat_eq_iff)
  define s' where "s' = add_free ptr st"
  define m' where "m' = mem s'"
  have co: "coalesce ptr st = (ptr, s')"
    using lf' rf' by (simp add: coalesce_def Let_def s'_def flip: defs)
  have F: "free_list st \<noteq> 0 \<Longrightarrow> free_list st \<in> set xs"
    using dl by (rule dll_head_in)
  have keep: "m' (b - 8) = m (b - 8)" "m' (b - 16) = m (b - 16)"
    if "aligned16 b" "ptr + 16 \<noteq> b" "\<forall>x\<in>set xs. x + 16 \<noteq> b" for b
  proof -
    from hdr_not_node[OF that(1) alp that(2)] ftr_not_node[OF that(1) alp that(2)]
    have 1: "b - 8 \<noteq> ptr" "b - 8 \<noteq> ptr + 8" "b - 16 \<noteq> ptr" "b - 16 \<noteq> ptr + 8" by auto
    from tag_clean[OF that(1) alx that(3)] F
    have 2: "free_list st \<noteq> 0 \<Longrightarrow> b - 8 \<noteq> free_list st + 8"
      "free_list st \<noteq> 0 \<Longrightarrow> b - 16 \<noteq> free_list st + 8" by auto
    show "m' (b - 8) = m (b - 8)" "m' (b - 16) = m (b - 16)"
      unfolding m'_def s'_def m_def using 1 2 by (auto intro!: add_free_frame)
  qed
  have kp: "m' (HDRP ptr) = c" "m' (ptr - OVERHEAD) = m (ptr - OVERHEAD)"
    using keep[OF alp ne(3)] e hp by (simp_all add: HDRP_def OVERHEAD_def GET_def)
  have kl: "m' (HDRP L) = m (HDRP L)"
    using keep(1)[OF alb(1) ne(1)] e by (simp add: HDRP_def)
  have "FTRP m ptr = R - 16" by (simp add: FTRP_def Req OVERHEAD_def flip: c_def)
  with fp have fp': "m (R - 16) = c" by (simp add: GET_def)
  have kr: "m' (HDRP R) = m (HDRP R)" "m' (R - 16) = c"
    using keep[OF alb(2) ne(2)] e fp' by (simp_all add: HDRP_def)
  have sP: "GET_SIZE m' (HDRP ptr) = c"
    using als(1) by (simp add: GET_SIZE_def GET_def kp aligned16_mask_id' del: aligned16_GET_SIZE)
  have p1: "GET_ALLOC m' (HDRP ptr) = 0"
    using als(1) by (simp add: GET_ALLOC_def GET_def kp aligned16_bit0)
  have p2: "GET m' (FTRP m' ptr) = GET m' (HDRP ptr)"
    using kr(2) by (simp add: FTRP_def sP GET_def kp Req OVERHEAD_def)
  have p3: "dll m' (free_list s') (ptr # xs)"
    unfolding m'_def s'_def using dl p0 pn alp alx di unfolding m_def by (rule add_free_dll)
  have p4: "count_list (ptr # xs) ptr = 1" using pn by (simp add: count_list_0_iff)
  have "PREV_BLKP m' ptr = L"
    using lft by (simp add: PREV_BLKP_def GET_SIZE_def GET_def kp Leq)
  then have p5: "GET_ALLOC m' (HDRP (PREV_BLKP m' ptr)) \<noteq> 0"
    using lf' by (simp add: GET_ALLOC_def GET_def kl)
  have "NEXT_BLKP m' ptr = R" by (simp add: NEXT_BLKP_def sP Req)
  then have p6: "GET_ALLOC m' (HDRP (NEXT_BLKP m' ptr)) \<noteq> 0"
    using rf' by (simp add: GET_ALLOC_def GET_def kr)
  show ?thesis
    using lf rf p1 p2 p3 p4 p5 p6
    by (simp add: coalesce_post_def Let_def co flip: m_def m'_def)
qed

lemma coalesce_post_right:
  assumes pre: "coalesce_pre ptr st xs"
    and lf: "GET_ALLOC (mem st) (HDRP (PREV_BLKP (mem st) ptr)) \<noteq> 0"
    and rf: "GET_ALLOC (mem st) (HDRP (NEXT_BLKP (mem st) ptr)) = 0"
  shows "coalesce_post ptr st xs"
proof -
  define m where "m = mem st"
  define L where "L = PREV_BLKP m ptr"
  define R where "R = NEXT_BLKP m ptr"
  define RR where "RR = NEXT_BLKP m R"
  define c where "c = GET_SIZE m (HDRP ptr)"
  define l where "l = GET_SIZE m (HDRP L)"
  define r where "r = GET_SIZE m (HDRP R)"
  note defs = m_def L_def R_def RR_def c_def l_def r_def
  have lf': "GET_ALLOC m (HDRP L) \<noteq> 0" and rf': "GET_ALLOC m (HDRP R) = 0"
    using lf rf by (simp_all add: defs)
  from pre lf rf have
    dl: "dll m (free_list st) xs" and di: "distinct xs" and alx: "\<forall>x\<in>set xs. aligned16 x"
    and p0: "ptr \<noteq> 0" and alp: "aligned16 ptr" and pn: "ptr \<notin> set xs"
    and cmin: "MIN_BLOCK_SIZE \<le> c"
    and lft: "GET_SIZE m (ptr - OVERHEAD) = l" and lmin: "OVERHEAD \<le> l"
    and Rin: "R \<in> set xs" and rmin: "MIN_BLOCK_SIZE \<le> r"
    and RRa: "GET_ALLOC m (HDRP RR) \<noteq> 0"
    and e: "\<forall>x\<in>set xs. x + 16 \<noteq> ptr \<and> x + 16 \<noteq> L \<and> x + 16 \<noteq> R \<and> x + 16 \<noteq> RR"
    and lo: "16 + unat l \<le> unat ptr"
    and hi: "unat ptr + unat c + unat r < 2 ^ 64"
    unfolding coalesce_pre_def Let_def defs by simp_all
  have sz: "32 \<le> unat c" "16 \<le> unat l" "32 \<le> unat r"
    using cmin lmin rmin
    by (simp_all add: MIN_BLOCK_SIZE_def OVERHEAD_def ALIGNMENT_def word_le_nat_alt)
  have Leq: "L = ptr - l" using lft by (simp add: L_def PREV_BLKP_def)
  have Req: "R = ptr + c" by (simp add: R_def NEXT_BLKP_def c_def)
  have RReq: "RR = ptr + c + r" by (simp add: RR_def NEXT_BLKP_def r_def Req)
  have als: "aligned16 c" "aligned16 l" "aligned16 r" by (simp_all add: c_def l_def r_def)
  have alb: "aligned16 L" "aligned16 R" "aligned16 RR"
    using alp als by (auto simp: Leq Req RReq intro: aligned16_add aligned16_diff)
  have un: "unat L = unat ptr - unat l" "unat R = unat ptr + unat c"
    "unat RR = unat ptr + unat c + unat r" "unat (ptr + 16) = unat ptr + 16"
    using lo hi sz by (simp_all add: Leq Req RReq unat_plus unat_minus)
  have ne: "ptr + 16 \<noteq> L" "ptr + 16 \<noteq> RR" "ptr + 16 \<noteq> ptr" "ptr \<noteq> RR" "L \<noteq> ptr"
    using un sz lo hi by (auto simp: word_unat_eq_iff)
  have lc: "GET_SIZE (m(HDRP ptr := c + r)) (HDRP ptr) = c + r" "(c + r) AND 1 = 0"
    using aligned16_add[OF als(1,3)]
    by (simp_all add: GET_SIZE_def GET_def aligned16_mask_id' aligned16_bit0 del: aligned16_GET_SIZE)
  have ft: "ptr + (c + r) - OVERHEAD = RR - 16" by (simp add: RReq OVERHEAD_def)
  define m1 where "m1 = m(HDRP ptr := c + r, RR - 16 := c + r)"
  define s1 where "s1 = st\<lparr>mem := m1\<rparr>"
  define s2 where "s2 = del_free R s1"
  define s' where "s' = add_free ptr s2"
  define m' where "m' = mem s'"
  have co: "coalesce ptr st = (ptr, s')"
    using lf' rf' lc ft
    by (simp add: coalesce_def Let_def PUT_def FTRP_def m1_def s1_def s2_def s'_def flip: defs)
  have cl: "\<forall>x\<in>set xs. HDRP ptr \<noteq> x \<and> HDRP ptr \<noteq> x + 8"
    "\<forall>x\<in>set xs. RR - 16 \<noteq> x \<and> RR - 16 \<noteq> x + 8"
    using tag_clean(1)[OF alp alx] tag_clean(2)[OF alb(3) alx] e by (auto simp: HDRP_def)
  have d1: "dll (mem s1) (free_list s1) xs"
    using dl cl by (simp add: s1_def m1_def dll_def dlseg_frame)
  have d2: "dll (mem s2) (free_list s2) (remove1 R xs)"
    unfolding s2_def using d1 Rin alx di by (rule del_free_dll)
  have rem: "ptr \<notin> set (remove1 R xs)" "\<forall>x\<in>set (remove1 R xs). aligned16 x"
    "distinct (remove1 R xs)" "set (remove1 R xs) \<subseteq> set xs"
    using pn alx di by (auto simp: set_remove1_eq)
  have p3: "dll m' (free_list s') (ptr # remove1 R xs)"
    unfolding m'_def s'_def using d2 p0 rem(1) alp rem(2,3) by (rule add_free_dll)
  have F: "free_list s2 \<noteq> 0 \<Longrightarrow> free_list s2 \<in> set xs"
    using dll_head_in[OF d2] rem(4) by auto
  have keep: "m' (b - 8) = m1 (b - 8)" "m' (b - 16) = m1 (b - 16)"
    if "aligned16 b" "ptr + 16 \<noteq> b" "\<forall>x\<in>set xs. x + 16 \<noteq> b" for b
  proof -
    from hdr_not_node[OF that(1) alp that(2)] ftr_not_node[OF that(1) alp that(2)]
    have 1: "b - 8 \<noteq> ptr" "b - 8 \<noteq> ptr + 8" "b - 16 \<noteq> ptr" "b - 16 \<noteq> ptr + 8" by auto
    note 2 = tag_clean[OF that(1) alx that(3)]
    from 2 F have 3: "free_list s2 \<noteq> 0 \<Longrightarrow> b - 8 \<noteq> free_list s2 + 8"
      "free_list s2 \<noteq> 0 \<Longrightarrow> b - 16 \<noteq> free_list s2 + 8" by auto
    have "m' (b - 8) = mem s2 (b - 8)" "m' (b - 16) = mem s2 (b - 16)"
      unfolding m'_def s'_def using 1 3 by (auto intro!: add_free_frame)
    moreover have "mem s2 (b - 8) = mem s1 (b - 8)" "mem s2 (b - 16) = mem s1 (b - 16)"
      unfolding s2_def using d1 Rin 2 by (auto intro!: del_free_frame)
    ultimately show "m' (b - 8) = m1 (b - 8)" "m' (b - 16) = m1 (b - 16)"
      by (simp_all add: s1_def)
  qed
  have kp: "m' (HDRP ptr) = c + r" "m' (ptr - OVERHEAD) = m (ptr - OVERHEAD)"
    using keep[OF alp ne(3)] e ne hdr_not_ftr[OF alp alb(3)]
    by (simp_all add: HDRP_def OVERHEAD_def m1_def)
  have kl: "m' (HDRP L) = m (HDRP L)"
    using keep(1)[OF alb(1) ne(1)] e ne hdr_not_ftr[OF alb(1) alb(3)]
    by (simp add: HDRP_def m1_def)
  have kr: "m' (HDRP RR) = m (HDRP RR)" "m' (RR - 16) = c + r"
    using keep[OF alb(3) ne(2)] e ne by (simp_all add: HDRP_def m1_def)
  have sP: "GET_SIZE m' (HDRP ptr) = c + r"
    using lc(1) by (simp add: GET_SIZE_def GET_def kp)
  have p1: "GET_ALLOC m' (HDRP ptr) = 0"
    by (simp add: GET_ALLOC_def GET_def kp lc)
  have p2: "GET m' (FTRP m' ptr) = GET m' (HDRP ptr)"
    by (simp add: FTRP_def sP ft GET_def kp kr)
  have "count_list (remove1 R xs) ptr = 0" using rem(1) unfolding count_list_0_iff .
  then have p4: "count_list (ptr # remove1 R xs) ptr = 1" by simp
  have "PREV_BLKP m' ptr = L"
    using lft by (simp add: PREV_BLKP_def GET_SIZE_def GET_def kp Leq)
  then have p5: "GET_ALLOC m' (HDRP (PREV_BLKP m' ptr)) \<noteq> 0"
    using lf' by (simp add: GET_ALLOC_def GET_def kl)
  have "NEXT_BLKP m' ptr = ptr + (c + r)" by (simp add: NEXT_BLKP_def sP)
  also have "\<dots> = RR" by (simp add: RReq)
  finally have p6: "GET_ALLOC m' (HDRP (NEXT_BLKP m' ptr)) \<noteq> 0"
    using RRa by (simp add: GET_ALLOC_def GET_def kr)
  show ?thesis
    using lf rf p1 p2 p3 p4 p5 p6
    by (simp add: coalesce_post_def Let_def co flip: m_def m'_def R_def)
qed

lemma coalesce_post_both:
  assumes pre: "coalesce_pre ptr st xs"
    and lf: "GET_ALLOC (mem st) (HDRP (PREV_BLKP (mem st) ptr)) = 0"
    and rf: "GET_ALLOC (mem st) (HDRP (NEXT_BLKP (mem st) ptr)) = 0"
  shows "coalesce_post ptr st xs"
proof -
  define m where "m = mem st"
  define L where "L = PREV_BLKP m ptr"
  define R where "R = NEXT_BLKP m ptr"
  define LL where "LL = PREV_BLKP m L"
  define RR where "RR = NEXT_BLKP m R"
  define c where "c = GET_SIZE m (HDRP ptr)"
  define l where "l = GET_SIZE m (HDRP L)"
  define r where "r = GET_SIZE m (HDRP R)"
  define ll where "ll = GET_SIZE m (HDRP LL)"
  note defs = m_def L_def R_def LL_def RR_def c_def l_def r_def ll_def
  have lf': "GET_ALLOC m (HDRP L) = 0" and rf': "GET_ALLOC m (HDRP R) = 0"
    using lf rf by (simp_all add: defs)
  from pre lf rf have
    dl: "dll m (free_list st) xs" and di: "distinct xs" and alx: "\<forall>x\<in>set xs. aligned16 x"
    and alp: "aligned16 ptr"
    and cmin: "MIN_BLOCK_SIZE \<le> c"
    and lft: "GET_SIZE m (ptr - OVERHEAD) = l"
    and Lin: "L \<in> set xs" and lmin: "MIN_BLOCK_SIZE \<le> l"
    and llft: "GET_SIZE m (L - OVERHEAD) = ll" and llmin: "OVERHEAD \<le> ll"
    and LLa: "GET_ALLOC m (HDRP LL) \<noteq> 0"
    and Rin: "R \<in> set xs" and rmin: "MIN_BLOCK_SIZE \<le> r"
    and RRa: "GET_ALLOC m (HDRP RR) \<noteq> 0"
    and e: "\<forall>x\<in>set xs. x + 16 \<noteq> ptr \<and> x + 16 \<noteq> L \<and> x + 16 \<noteq> R \<and> x + 16 \<noteq> LL
              \<and> x + 16 \<noteq> RR"
    and lo: "16 + unat ll + unat l \<le> unat ptr"
    and hi: "unat ptr + unat c + unat r < 2 ^ 64"
    unfolding coalesce_pre_def Let_def defs by simp_all
  have sz: "32 \<le> unat c" "32 \<le> unat l" "32 \<le> unat r" "16 \<le> unat ll"
    using cmin lmin rmin llmin
    by (simp_all add: MIN_BLOCK_SIZE_def OVERHEAD_def ALIGNMENT_def word_le_nat_alt)
  have Leq: "L = ptr - l" using lft by (simp add: L_def PREV_BLKP_def)
  have Req: "R = ptr + c" by (simp add: R_def NEXT_BLKP_def c_def)
  have RReq: "RR = ptr + c + r" by (simp add: RR_def NEXT_BLKP_def r_def Req)
  have LLeq: "LL = L - ll" using llft by (simp add: LL_def PREV_BLKP_def)
  have als: "aligned16 c" "aligned16 l" "aligned16 r" "aligned16 ll"
    by (simp_all add: c_def l_def r_def ll_def)
  have alb: "aligned16 L" "aligned16 R" "aligned16 RR" "aligned16 LL"
    using alp als by (auto simp: Leq Req RReq LLeq intro: aligned16_add aligned16_diff)
  have un: "unat L = unat ptr - unat l" "unat R = unat ptr + unat c"
    "unat RR = unat ptr + unat c + unat r" "unat LL = unat ptr - unat l - unat ll"
    using lo hi sz by (simp_all add: Leq Req RReq LLeq unat_plus unat_minus)
  have ne: "L \<noteq> RR" "LL \<noteq> L" "L \<noteq> R"
    using un sz lo hi by (auto simp: word_unat_eq_iff)
  have "aligned16 (l + c + r)" using als by (intro aligned16_add)
  then have lc: "GET_SIZE (m(HDRP L := l + c + r)) (HDRP L) = l + c + r" "(l + c + r) AND 1 = 0"
    by (simp_all add: GET_SIZE_def GET_def aligned16_mask_id' aligned16_bit0 del: aligned16_GET_SIZE)
  have ft: "L + (l + c + r) - OVERHEAD = RR - 16" by (simp add: Leq RReq OVERHEAD_def)
  define m1 where "m1 = m(HDRP L := l + c + r, RR - 16 := l + c + r)"
  define s1 where "s1 = st\<lparr>mem := m1\<rparr>"
  define s' where "s' = del_free R s1"
  define m' where "m' = mem s'"
  have co: "coalesce ptr st = (L, s')"
    using lf' rf' lc ft
    by (simp add: coalesce_def Let_def PUT_def FTRP_def m1_def s1_def s'_def flip: defs)
  have cl: "\<forall>x\<in>set xs. HDRP L \<noteq> x \<and> HDRP L \<noteq> x + 8"
    "\<forall>x\<in>set xs. RR - 16 \<noteq> x \<and> RR - 16 \<noteq> x + 8"
    using tag_clean(1)[OF alb(1) alx] tag_clean(2)[OF alb(3) alx] e by (auto simp: HDRP_def)
  have d1: "dll (mem s1) (free_list s1) xs"
    using dl cl by (simp add: s1_def m1_def dll_def dlseg_frame)
  have p3: "dll m' (free_list s') (remove1 R xs)"
    unfolding m'_def s'_def using d1 Rin alx di by (rule del_free_dll)
  have keep: "m' (b - 8) = m1 (b - 8)" "m' (b - 16) = m1 (b - 16)"
    if "aligned16 b" "\<forall>x\<in>set xs. x + 16 \<noteq> b" for b
  proof -
    note 2 = tag_clean[OF that(1) alx that(2)]
    have "m' (b - 8) = mem s1 (b - 8)" "m' (b - 16) = mem s1 (b - 16)"
      unfolding m'_def s'_def using d1 Rin 2 by (auto intro!: del_free_frame)
    then show "m' (b - 8) = m1 (b - 8)" "m' (b - 16) = m1 (b - 16)"
      by (simp_all add: s1_def)
  qed
  have kL: "m' (HDRP L) = l + c + r" "m' (L - OVERHEAD) = m (L - OVERHEAD)"
    using keep[OF alb(1)] e ne hdr_not_ftr[OF alb(1) alb(3)]
    by (simp_all add: HDRP_def OVERHEAD_def m1_def)
  have kll: "m' (HDRP LL) = m (HDRP LL)"
    using keep(1)[OF alb(4)] e ne hdr_not_ftr[OF alb(4) alb(3)]
    by (simp add: HDRP_def m1_def)
  have kr: "m' (HDRP RR) = m (HDRP RR)" "m' (RR - 16) = l + c + r"
    using keep[OF alb(3)] e ne by (simp_all add: HDRP_def m1_def)
  have sL: "GET_SIZE m' (HDRP L) = l + c + r"
    using lc(1) by (simp add: GET_SIZE_def GET_def kL)
  have p1: "GET_ALLOC m' (HDRP L) = 0"
    by (simp add: GET_ALLOC_def GET_def kL lc)
  have p2: "GET m' (FTRP m' L) = GET m' (HDRP L)"
    by (simp add: FTRP_def sL ft GET_def kL kr)
  have "L \<in> set (remove1 R xs)" "distinct (remove1 R xs)"
    using Lin ne di by (auto simp: set_remove1_eq)
  then have p4: "count_list (remove1 R xs) L = 1" by (intro distinct_count_list1)
  have "PREV_BLKP m' L = LL"
    using llft by (simp add: PREV_BLKP_def GET_SIZE_def GET_def kL LLeq)
  then have p5: "GET_ALLOC m' (HDRP (PREV_BLKP m' L)) \<noteq> 0"
    using LLa by (simp add: GET_ALLOC_def GET_def kll)
  have "NEXT_BLKP m' L = L + (l + c + r)" by (simp add: NEXT_BLKP_def sL)
  also have "\<dots> = RR" by (simp add: Leq RReq)
  finally have p6: "GET_ALLOC m' (HDRP (NEXT_BLKP m' L)) \<noteq> 0"
    using RRa by (simp add: GET_ALLOC_def GET_def kr)
  show ?thesis
    using lf rf p1 p2 p3 p4 p5 p6
    by (simp add: coalesce_post_def Let_def co flip: m_def m'_def L_def R_def)
qed

lemma coalesce_table:
  "coalesce ptr st =
     (let m = mem st;
          lbp = PREV_BLKP m ptr; rbp = NEXT_BLKP m ptr;
          lfree = (GET_ALLOC m (HDRP lbp) = 0); rfree = (GET_ALLOC m (HDRP rbp) = 0);
          cursize = GET_SIZE m (HDRP ptr); lsize = GET_SIZE m (HDRP lbp);
          rsize = GET_SIZE m (HDRP rbp)
      in if \<not> lfree \<and> \<not> rfree then (ptr, add_free ptr st)
         else if lfree \<and> \<not> rfree then
           (lbp, st\<lparr>mem := m(HDRP lbp := lsize + cursize,
                               lbp + (lsize + cursize) - OVERHEAD := lsize + cursize)\<rparr>)
         else if \<not> lfree \<and> rfree then
           (ptr, add_free ptr (del_free rbp
              (st\<lparr>mem := m(HDRP ptr := cursize + rsize,
                                ptr + (cursize + rsize) - OVERHEAD := cursize + rsize)\<rparr>)))
         else
           (lbp, del_free rbp
              (st\<lparr>mem := m(HDRP lbp := lsize + cursize + rsize,
                                lbp + (lsize + cursize + rsize) - OVERHEAD :=
                                  lsize + cursize + rsize)\<rparr>)))"
proof -
  have sz: "GET_SIZE (m(p := a + b)) p = a + b" if "aligned16 a" "aligned16 b" for m p a b
    using aligned16_add[OF that]
    by (simp add: GET_SIZE_def GET_def aligned16_mask_id' del: aligned16_GET_SIZE)
  have sz3: "GET_SIZE (m(p := a + b + c)) p = a + b + c"
    if "aligned16 a" "aligned16 b" "aligned16 c" for m p a b c
    using aligned16_add[OF aligned16_add[OF that(1,2)] that(3)]
    by (simp add: GET_SIZE_def GET_def aligned16_mask_id' del: aligned16_GET_SIZE)
  show ?thesis
    by (simp add: coalesce_def Let_def PUT_def FTRP_def sz sz3)
qed

text \<open>
  C3. \<^verbatim>\<open>coalesce\<close> follows the four-case table: with both neighbours allocated it
  inserts \<open>ptr\<close> and returns it; with only the left neighbour free it writes
  \<open>size(L) + size(ptr)\<close> into the header of \<open>L\<close> and into the footer that header now
  designates, leaves the list alone and returns \<open>L\<close>; with only the right neighbour
  free it writes \<open>size(ptr) + size(R)\<close> into the tags of \<open>ptr\<close>, unlinks \<open>R\<close>, inserts
  \<open>ptr\<close> and returns it; with both free it writes the sum of the three sizes into the
  tags of \<open>L\<close>, unlinks \<open>R\<close> and returns \<open>L\<close>. When the heap around \<open>ptr\<close> is well
  formed (\<open>coalesce_pre\<close>), the returned block is free, on the free list exactly once,
  and has no free neighbour (\<open>coalesce_post\<close>).
\<close>

theorem coalesce_four_cases:
  "coalesce ptr st =
     (let m = mem st;
          lbp = PREV_BLKP m ptr; rbp = NEXT_BLKP m ptr;
          lfree = (GET_ALLOC m (HDRP lbp) = 0); rfree = (GET_ALLOC m (HDRP rbp) = 0);
          cursize = GET_SIZE m (HDRP ptr); lsize = GET_SIZE m (HDRP lbp);
          rsize = GET_SIZE m (HDRP rbp)
      in if \<not> lfree \<and> \<not> rfree then (ptr, add_free ptr st)
         else if lfree \<and> \<not> rfree then
           (lbp, st\<lparr>mem := m(HDRP lbp := lsize + cursize,
                               lbp + (lsize + cursize) - OVERHEAD := lsize + cursize)\<rparr>)
         else if \<not> lfree \<and> rfree then
           (ptr, add_free ptr (del_free rbp
              (st\<lparr>mem := m(HDRP ptr := cursize + rsize,
                                ptr + (cursize + rsize) - OVERHEAD := cursize + rsize)\<rparr>)))
         else
           (lbp, del_free rbp
              (st\<lparr>mem := m(HDRP lbp := lsize + cursize + rsize,
                                lbp + (lsize + cursize + rsize) - OVERHEAD :=
                                  lsize + cursize + rsize)\<rparr>)))
   \<and> (coalesce_pre ptr st xs \<longrightarrow> coalesce_post ptr st xs)"
proof (intro conjI impI)
  show "coalesce_post ptr st xs" if "coalesce_pre ptr st xs"
    using that coalesce_post_none coalesce_post_left coalesce_post_right coalesce_post_both
    by (cases "GET_ALLOC (mem st) (HDRP (PREV_BLKP (mem st) ptr)) = 0";
        cases "GET_ALLOC (mem st) (HDRP (NEXT_BLKP (mem st) ptr)) = 0") blast+
qed (rule coalesce_table)

lemmas list_eval = dll_def aligned16_def coalesce_pre_def coalesce_post_def

theorem coalesce_four_cases_witness:
  "case run [Malloc (grant 0x10000) 16, Malloc refuse 16, Malloc refuse 16, Malloc refuse 16,
             Free 0x10020, Free 0x10060] (mm_init 4096 boot) of
     None \<Rightarrow> False
   | Some s \<Rightarrow>
       coalesce_pre 0x10040 (unmark 0x10040 s) [0x10060, 0x10020, 0x100A0] \<and>
       coalesce_post 0x10040 (unmark 0x10040 s) [0x10060, 0x10020, 0x100A0]"
proof -
  have "case run [Malloc (grant 0x10000) 16, Malloc refuse 16, Malloc refuse 16, Malloc refuse 16,
             Free 0x10020, Free 0x10060] (mm_init 4096 boot) of
     None \<Rightarrow> False
   | Some s \<Rightarrow> coalesce_pre 0x10040 (unmark 0x10040 s) [0x10060, 0x10020, 0x100A0]"
    by (simp add: eval_simps list_eval cong: let_weak_cong)
  then obtain s where
    r: "run [Malloc (grant 0x10000) 16, Malloc refuse 16, Malloc refuse 16, Malloc refuse 16,
             Free 0x10020, Free 0x10060] (mm_init 4096 boot) = Some s"
    and h: "coalesce_pre 0x10040 (unmark 0x10040 s) [0x10060, 0x10020, 0x100A0]"
    by (auto split: option.splits)
  from coalesce_four_cases[of "0x10040" "unmark 0x10040 s" "[0x10060, 0x10020, 0x100A0]"] h
  have "coalesce_post 0x10040 (unmark 0x10040 s) [0x10060, 0x10020, 0x100A0]" by blast
  with h r show ?thesis by simp
qed

section \<open>Unmapping a chunk\<close>

text \<open>
  C4. With \<open>bp\<close> the block \<^verbatim>\<open>coalesce\<close> returns, \<^verbatim>\<open>mm_free\<close> unmaps exactly
  when the size of the block before \<open>bp\<close> is two words, the header word of the block
  after \<open>bp\<close> is \<open>8 | 1\<close> and the chunk count is above 1. It then passes to
  \<^verbatim>\<open>mem_unmap\<close> the address of the sentinel header minus 8 and the size of \<open>bp\<close> plus
  \<^verbatim>\<open>PAGE_OVERHEAD\<close>, and decrements the chunk count; otherwise it makes no pager
  call. A positive chunk count stays positive. When it unmaps and the free list is a
  doubly linked list of the distinct aligned nodes \<open>xs\<close>, one of them \<open>bp\<close>, the free
  list afterwards is the doubly linked list of \<open>xs\<close> without \<open>bp\<close>, and \<open>bp\<close> is no
  longer on it.
\<close>

theorem unmap_exactly_when:
  "let st1 = snd (coalesce ptr (unmark ptr st));
       bp = fst (coalesce ptr (unmark ptr st));
       prev = PREV_BLKP (mem st1) bp;
       next = NEXT_BLKP (mem st1) bp;
       fires = (GET_SIZE (mem st1) (HDRP prev) = 2 * 8 \<and> GET (mem st1) (HDRP next) = 8 OR 1 \<and>
                1 <s num_page_chunks st)
   in mm_free ptr st =
        (if fires
         then (del_free bp st1)
                \<lparr>unmap_calls := (HDRP prev - 8, GET_SIZE (mem st1) (HDRP bp) + PAGE_OVERHEAD)
                                  # unmap_calls st,
                 num_page_chunks := num_page_chunks st - 1\<rparr>
         else st1)
      \<and> unmap_calls st1 = unmap_calls st
      \<and> (0 <s num_page_chunks st \<longrightarrow> 0 <s num_page_chunks (mm_free ptr st))
      \<and> (fires \<longrightarrow> dll (mem st1) (free_list st1) xs \<longrightarrow> distinct xs \<longrightarrow>
           (\<forall>x\<in>set xs. aligned16 x) \<longrightarrow> bp \<in> set xs \<longrightarrow>
           dll (mem (mm_free ptr st)) (free_list (mm_free ptr st)) (remove1 bp xs)
           \<and> bp \<notin> set (remove1 bp xs))"
proof -
  define st1 where "st1 = snd (coalesce ptr (unmark ptr st))"
  define bp where "bp = fst (coalesce ptr (unmark ptr st))"
  have pos: "0 <s n - 1" if "1 <s n" for n :: cint
  proof -
    from that have a: "1 < sint n" by (simp add: word_sless_alt)
    have b: "sint n < 2 ^ 31" using sint_lt[of n] by simp
    have "sint (n - 1) = signed_take_bit 31 (sint n - 1)" by (simp add: sint_word_ariths)
    also have "\<dots> = sint n - 1" using a b by (intro signed_take_bit_int_eq_self) auto
    finally show ?thesis using a by (simp add: word_sless_alt)
  qed
  have unlink: "dll (mem (del_free bp st1)) (free_list (del_free bp st1)) (remove1 bp xs)
      \<and> bp \<notin> set (remove1 bp xs)"
    if "dll (mem st1) (free_list st1) xs" "distinct xs" "\<forall>x\<in>set xs. aligned16 x" "bp \<in> set xs"
    using del_free_dll[OF that(1) that(4) that(3) that(2)] that(2) by simp
  show ?thesis
    using pos[of "num_page_chunks st"] unlink
    unfolding st1_def bp_def
    by (auto simp: Let_def mm_free_unmark try_unmap_def coalesce_globals unmark_globals
          del_free_globals OVERHEAD_def PAGE_PAD_def HDRP_def)
qed

theorem unmap_exactly_when_witness:
  "case run [Malloc (grant 0x10000) 16, Malloc (grant 0x20000) 5000] (mm_init 4096 boot) of
     None \<Rightarrow> False
   | Some s \<Rightarrow>
       (let st1 = snd (coalesce 0x20020 (unmark 0x20020 s));
            bp = fst (coalesce 0x20020 (unmark 0x20020 s))
        in 0 <s num_page_chunks s \<and> 1 <s num_page_chunks s \<and> bp = 0x20020 \<and>
           GET_SIZE (mem st1) (HDRP (PREV_BLKP (mem st1) bp)) = 2 * 8 \<and>
           GET (mem st1) (HDRP (NEXT_BLKP (mem st1) bp)) = 8 OR 1 \<and>
           dll (mem st1) (free_list st1) [0x20020, 0x10040] \<and>
           0 <s num_page_chunks (mm_free 0x20020 s) \<and>
           dll (mem (mm_free 0x20020 s)) (free_list (mm_free 0x20020 s)) [0x10040])"
proof -
  let ?cs = "[Malloc (grant 0x10000) 16, Malloc (grant 0x20000) 5000]"
  have "case run ?cs (mm_init 4096 boot) of
     None \<Rightarrow> False
   | Some s \<Rightarrow>
       (let st1 = snd (coalesce 0x20020 (unmark 0x20020 s));
            bp = fst (coalesce 0x20020 (unmark 0x20020 s))
        in 0 <s num_page_chunks s \<and> 1 <s num_page_chunks s \<and> bp = 0x20020 \<and>
           GET_SIZE (mem st1) (HDRP (PREV_BLKP (mem st1) bp)) = 2 * 8 \<and>
           GET (mem st1) (HDRP (NEXT_BLKP (mem st1) bp)) = 8 OR 1 \<and>
           dll (mem st1) (free_list st1) [0x20020, 0x10040])"
    by (simp add: eval_simps list_eval cong: let_weak_cong)
  then obtain s where r: "run ?cs (mm_init 4096 boot) = Some s"
    and h: "0 <s num_page_chunks s" "1 <s num_page_chunks s"
      "fst (coalesce 0x20020 (unmark 0x20020 s)) = 0x20020"
      "GET_SIZE (mem (snd (coalesce 0x20020 (unmark 0x20020 s))))
         (HDRP (PREV_BLKP (mem (snd (coalesce 0x20020 (unmark 0x20020 s))))
            (fst (coalesce 0x20020 (unmark 0x20020 s))))) = 2 * 8"
      "GET (mem (snd (coalesce 0x20020 (unmark 0x20020 s))))
         (HDRP (NEXT_BLKP (mem (snd (coalesce 0x20020 (unmark 0x20020 s))))
            (fst (coalesce 0x20020 (unmark 0x20020 s))))) = 8 OR 1"
      "dll (mem (snd (coalesce 0x20020 (unmark 0x20020 s))))
         (free_list (snd (coalesce 0x20020 (unmark 0x20020 s)))) [0x20020, 0x10040]"
    by (auto split: option.splits simp: Let_def)
  note t = unmap_exactly_when[of "0x20020" s "[0x20020, 0x10040]", unfolded Let_def]
  from t have "0 <s num_page_chunks s \<longrightarrow> 0 <s num_page_chunks (mm_free 0x20020 s)"
    by (rule conjunct2[THEN conjunct2, THEN conjunct1])
  with h(1) have p: "0 <s num_page_chunks (mm_free 0x20020 s)" by simp
  from t[THEN conjunct2, THEN conjunct2, THEN conjunct2] h
  have "dll (mem (mm_free 0x20020 s)) (free_list (mm_free 0x20020 s)) [0x10040]"
    by (simp add: aligned16_def)
  with p h r show ?thesis by (simp add: Let_def)
qed

section \<open>A request followed by its release\<close>















end
